theory Spec2Isabelle
  imports Complex_Main "HOL-Library.Word" "HOL-Library.Log_Nat"
begin

unbundle bit_operations_syntax

section \<open>Data model\<close>

text \<open>
  The live voice overlay (\<^verbatim>\<open>VoiceOverlay\<close>, src/unnamed/part_000) and the helpers it
  imports from the Gemini service (\<^verbatim>\<open>encodeBase64\<close>, \<^verbatim>\<open>decodeBase64\<close>,
  \<^verbatim>\<open>decodePCM\<close>, src/unnamed/part_001).

  A JavaScript string is a sequence of 16-bit code units; a \<^verbatim>\<open>Uint8Array\<close> is a list of
  bytes; an \<^verbatim>\<open>Int16Array\<close> is a list of 16-bit words read as two's complement.
\<close>

type_synonym byte = "8 word"
type_synonym code_unit = "16 word"
type_synonym js_string = "code_unit list"
type_synonym session_id = string

definition js_str :: "string \<Rightarrow> js_string" where
  "js_str s = map (\<lambda>c. of_nat (of_char c)) s"

datatype js_error = InvalidCharacterError | RangeError | NotSupportedError | InvalidStateError

subsection \<open>Language tags: \<^verbatim>\<open>parseLang\<close>\<close>

definition is_upper_AZ :: "code_unit \<Rightarrow> bool" where
  \<comment> \<open>the character class \<^verbatim>\<open>[A-Z]\<close>\<close>
  "is_upper_AZ c \<longleftrightarrow> 0x41 \<le> c \<and> c \<le> 0x5A"

definition is_js_space :: "code_unit \<Rightarrow> bool" where
  \<comment> \<open>the character class \<^verbatim>\<open>\s\<close>: ECMAScript WhiteSpace and LineTerminator\<close>
  "is_js_space c \<longleftrightarrow>
     c = 0x09 \<or> c = 0x0A \<or> c = 0x0B \<or> c = 0x0C \<or> c = 0x0D \<or> c = 0x20 \<or> c = 0xA0 \<or>
     c = 0x1680 \<or> (0x2000 \<le> c \<and> c \<le> 0x200A) \<or> c = 0x2028 \<or> c = 0x2029 \<or>
     c = 0x202F \<or> c = 0x205F \<or> c = 0x3000 \<or> c = 0xFEFF"

fun match_lang_tag :: "js_string \<Rightarrow> js_string option" where
  \<comment> \<open>\<^verbatim>\<open>text.match(/^\[([A-Z]{2})\]/)\<close>, giving capture group 1 of a match\<close>
  "match_lang_tag (c0 # c1 # c2 # c3 # rest) =
     (if c0 = 0x5B \<and> is_upper_AZ c1 \<and> is_upper_AZ c2 \<and> c3 = 0x5D then Some [c1, c2]
      else None)"
| "match_lang_tag _ = None"

fun strip_lang_tag :: "js_string \<Rightarrow> js_string" where
  \<comment> \<open>\<^verbatim>\<open>text.replace(/^\[[A-Z]{2}\]\s*/, '')\<close>\<close>
  "strip_lang_tag (c0 # c1 # c2 # c3 # rest) =
     (if c0 = 0x5B \<and> is_upper_AZ c1 \<and> is_upper_AZ c2 \<and> c3 = 0x5D
      then dropWhile is_js_space rest
      else c0 # c1 # c2 # c3 # rest)"
| "strip_lang_tag t = t"

definition parseLang :: "js_string \<Rightarrow> js_string \<Rightarrow> js_string \<times> js_string" where
  \<comment> \<open>takes the text and the detected language so far; gives the detected language
      afterwards and the returned text\<close>
  "parseLang text lang =
     (case match_lang_tag text of
        Some code \<Rightarrow> (code, strip_lang_tag text)
      | None \<Rightarrow> (lang, text))"

subsection \<open>Base64: \<^verbatim>\<open>encodeBase64\<close>, \<^verbatim>\<open>decodeBase64\<close>\<close>

text \<open>
  \<^verbatim>\<open>btoa\<close> and \<^verbatim>\<open>atob\<close> are functions of the browser, not of the repository. They are
  written here after the HTML standard: \<^verbatim>\<open>btoa\<close> throws on a code unit above U+00FF and
  otherwise applies base64 (RFC 4648, with padding) to the code units as bytes;
  \<^verbatim>\<open>atob\<close> is the forgiving-base64 decode.
\<close>

definition pad_char :: code_unit where
  "pad_char = 0x3D"

definition b64_code :: "nat \<Rightarrow> nat" where
  \<comment> \<open>the base64 alphabet: A-Z, a-z, 0-9, + and /\<close>
  "b64_code i =
     (if i < 26 then 65 + i
      else if i < 52 then 71 + i
      else if i < 62 then i - 4
      else if i = 62 then 43
      else 47)"

definition b64_char :: "nat \<Rightarrow> code_unit" where
  "b64_char i = of_nat (b64_code i)"

definition b64_index :: "code_unit \<Rightarrow> nat option" where
  "b64_index c =
     (let n = unat c in
      if 65 \<le> n \<and> n \<le> 90 then Some (n - 65)
      else if 97 \<le> n \<and> n \<le> 122 then Some (n - 71)
      else if 48 \<le> n \<and> n \<le> 57 then Some (n + 4)
      else if n = 43 then Some 62
      else if n = 47 then Some 63
      else None)"

fun sextets :: "nat list \<Rightarrow> nat list" where
  \<comment> \<open>three bytes give four 6-bit groups; a last group of one or two bytes is filled
      with zero bits\<close>
  "sextets (a # b # c # rest) =
     [a div 4, (a mod 4) * 16 + b div 16, (b mod 16) * 4 + c div 64, c mod 64] @ sextets rest"
| "sextets [a, b] = [a div 4, (a mod 4) * 16 + b div 16, (b mod 16) * 4]"
| "sextets [a] = [a div 4, (a mod 4) * 16]"
| "sextets [] = []"

definition pad_count :: "nat list \<Rightarrow> nat" where
  "pad_count bs = (if length bs mod 3 = 0 then 0 else 3 - length bs mod 3)"

definition b64_encode :: "nat list \<Rightarrow> js_string" where
  "b64_encode bs = map b64_char (sextets bs) @ replicate (pad_count bs) pad_char"

definition btoa :: "js_string \<Rightarrow> js_error + js_string" where
  "btoa s =
     (if \<exists>c \<in> set s. 0xFF < c then Inl InvalidCharacterError
      else Inr (b64_encode (map unat s)))"

definition is_ascii_whitespace :: "code_unit \<Rightarrow> bool" where
  "is_ascii_whitespace c \<longleftrightarrow> c = 0x09 \<or> c = 0x0A \<or> c = 0x0C \<or> c = 0x0D \<or> c = 0x20"

definition strip_padding :: "js_string \<Rightarrow> js_string" where
  \<comment> \<open>remove one or two trailing U+003D\<close>
  "strip_padding d =
     (case rev d of
        p # q # r \<Rightarrow>
          if p = pad_char \<and> q = pad_char then rev r
          else if p = pad_char then rev (q # r)
          else d
      | [p] \<Rightarrow> if p = pad_char then [] else d
      | [] \<Rightarrow> d)"

fun b64_decode_groups :: "nat list \<Rightarrow> nat list" where
  \<comment> \<open>24 bits give three bytes; of 18 left-over bits the last two are dropped, of 12 the
      last four\<close>
  "b64_decode_groups (s1 # s2 # s3 # s4 # rest) =
     (let n = ((s1 * 64 + s2) * 64 + s3) * 64 + s4
      in [n div 65536, (n div 256) mod 256, n mod 256]) @ b64_decode_groups rest"
| "b64_decode_groups [s1, s2, s3] =
     (let n = ((s1 * 64 + s2) * 64 + s3) div 4 in [n div 256, n mod 256])"
| "b64_decode_groups [s1, s2] = [(s1 * 64 + s2) div 16]"
| "b64_decode_groups [s1] = []"
| "b64_decode_groups [] = []"

definition atob :: "js_string \<Rightarrow> js_error + js_string" where
  "atob s =
     (let d = filter (\<lambda>c. \<not> is_ascii_whitespace c) s;
          d' = (if length d mod 4 = 0 then strip_padding d else d)
      in if length d' mod 4 = 1 then Inl InvalidCharacterError
         else case those (map b64_index d') of
                None \<Rightarrow> Inl InvalidCharacterError
              | Some sx \<Rightarrow> Inr (map of_nat (b64_decode_groups sx)))"

definition decodeBase64 :: "js_string \<Rightarrow> js_error + byte list" where
  \<comment> \<open>\<^verbatim>\<open>bytes[i] = binaryString.charCodeAt(i)\<close>: a store into a \<^verbatim>\<open>Uint8Array\<close> keeps the
      low eight bits\<close>
  "decodeBase64 base64 =
     (case atob base64 of
        Inl e \<Rightarrow> Inl e
      | Inr binaryString \<Rightarrow> Inr (map ucast binaryString))"

definition encodeBase64 :: "byte list \<Rightarrow> js_error + js_string" where
  \<comment> \<open>\<^verbatim>\<open>binary += String.fromCharCode(bytes[i])\<close>, then \<^verbatim>\<open>btoa(binary)\<close>\<close>
  "encodeBase64 bytes = btoa (map ucast bytes)"

subsection \<open>PCM16 samples: the capture callback and \<^verbatim>\<open>decodePCM\<close>\<close>

text \<open>
  JavaScript numbers are IEEE 754 doubles and the elements of a \<^verbatim>\<open>Float32Array\<close> are
  IEEE 754 singles. A finite value of either format is a real number; \<open>fp_round p emax\<close>
  rounds a real to the nearest value with \<open>p\<close> significant bits (ties to even), with
  subnormals below exponent \<open>1 - emax\<close>, and \<open>fp_overflow\<close> tells that the rounded
  value is beyond the largest finite one, where the format gives an infinity.
\<close>

definition rne :: "real \<Rightarrow> int" where
  \<comment> \<open>round to the nearest integer, ties to even\<close>
  "rne y =
     (let f = \<lfloor>y\<rfloor>; r = y - of_int f
      in if r < 1 / 2 then f else if 1 / 2 < r then f + 1 else if even f then f else f + 1)"

definition ilog2 :: "real \<Rightarrow> int" where
  \<comment> \<open>for \<open>0 < x\<close>, the exponent \<open>e\<close> with \<open>2 ^ e \<le> x < 2 ^ (e + 1)\<close>\<close>
  "ilog2 x = (if 1 \<le> x then bitlen \<lfloor>x\<rfloor> - 1 else - bitlen (\<lceil>1 / x\<rceil> - 1))"

definition fp_round :: "nat \<Rightarrow> int \<Rightarrow> real \<Rightarrow> real" where
  "fp_round p emax x =
     (if x = 0 then 0
      else let e = max (ilog2 \<bar>x\<bar>) (1 - emax);
               q = 2 powi (e - int p + 1)
           in of_int (rne (x / q)) * q)"

definition fp_overflow :: "int \<Rightarrow> real \<Rightarrow> bool" where
  "fp_overflow emax r \<longleftrightarrow> 2 powi (emax + 1) \<le> \<bar>r\<bar>"

definition js_trunc :: "real \<Rightarrow> int" where
  \<comment> \<open>the integer part, towards zero\<close>
  "js_trunc x = (if 0 \<le> x then \<lfloor>x\<rfloor> else \<lceil>x\<rceil>)"

definition pcm_sample :: "real \<Rightarrow> 16 word" where
  \<comment> \<open>One element of \<^verbatim>\<open>new Int16Array(inputData.map(v => v * 32767))\<close>. The product is a
      double; \<^verbatim>\<open>map\<close> on a \<^verbatim>\<open>Float32Array\<close> gives a \<^verbatim>\<open>Float32Array\<close>, so the product
      is stored as a single; the \<^verbatim>\<open>Int16Array\<close> takes its integer part modulo \<open>2 ^ 16\<close>
      (ToInt16), and 0 for an infinity.\<close>
  "pcm_sample v =
     (let d = fp_round 53 1023 (v * 32767)
      in if fp_overflow 1023 d then 0
         else let f = fp_round 24 127 d
              in if fp_overflow 127 f then 0 else word_of_int (js_trunc f))"

definition int16_bytes :: "16 word \<Rightarrow> byte list" where
  \<comment> \<open>the two bytes of an \<^verbatim>\<open>Int16Array\<close> element in its buffer, low byte first\<close>
  "int16_bytes w = [ucast w, ucast (drop_bit 8 w)]"

definition pcm16_bytes :: "real list \<Rightarrow> byte list" where
  \<comment> \<open>\<^verbatim>\<open>new Uint8Array(new Int16Array(inputData.map(v => v * 32767)).buffer)\<close>\<close>
  "pcm16_bytes inputData = concat (map (\<lambda>v. int16_bytes (pcm_sample v)) inputData)"

definition int16_of :: "byte \<Rightarrow> byte \<Rightarrow> 16 word" where
  "int16_of lo hi = push_bit 8 (ucast hi) OR ucast lo"

fun int16_view :: "byte list \<Rightarrow> 16 word list" where
  \<comment> \<open>\<^verbatim>\<open>new Int16Array(data.buffer)\<close> on a buffer of even length\<close>
  "int16_view (lo # hi # rest) = int16_of lo hi # int16_view rest"
| "int16_view _ = []"

definition sample_to_float :: "16 word \<Rightarrow> real" where
  \<comment> \<open>\<^verbatim>\<open>channelData[i] = dataInt16[...] / 32768.0\<close>: a double, stored as a single. The
      quotient is at most 1 in magnitude, far from the overflow of either format.\<close>
  "sample_to_float w = fp_round 24 127 (fp_round 53 1023 (real_of_int (sint w) / 32768))"

record audio_buffer =
  ab_length :: nat
  ab_sampleRate :: nat
  ab_channels :: "real list list"

definition duration :: "audio_buffer \<Rightarrow> real" where
  \<comment> \<open>\<^verbatim>\<open>AudioBuffer.duration\<close>: the length in frames over the sample rate\<close>
  "duration b = real (ab_length b) / real (ab_sampleRate b)"

definition decodePCM :: "byte list \<Rightarrow> nat \<Rightarrow> nat \<Rightarrow> js_error + audio_buffer" where
  \<comment> \<open>\<^verbatim>\<open>new Int16Array(data.buffer)\<close> throws a RangeError on a buffer of odd length;
      \<^verbatim>\<open>ctx.createBuffer\<close> takes the integer part of \<^verbatim>\<open>frameCount\<close> and throws a
      NotSupportedError when it or the number of channels is 0.\<close>
  "decodePCM data sampleRate numChannels =
     (if odd (length data) then Inl RangeError
      else let dataInt16 = int16_view data;
               frameCount = length dataInt16 div numChannels
           in if numChannels = 0 \<or> frameCount = 0 then Inl NotSupportedError
              else Inr \<lparr>ab_length = frameCount, ab_sampleRate = sampleRate,
                        ab_channels =
                          map (\<lambda>channel.
                                 map (\<lambda>i. sample_to_float (dataInt16 ! (i * numChannels + channel)))
                                   [0..<frameCount])
                            [0..<numChannels]\<rparr>)"

subsection \<open>The overlay: component state and the browser objects it drives\<close>

text \<open>
  \<^verbatim>\<open>VoiceOverlay\<close> keeps React state (\<^verbatim>\<open>status\<close>, \<^verbatim>\<open>isConnected\<close>, the two transcripts,
  \<^verbatim>\<open>detectedLang\<close>) and refs (\<^verbatim>\<open>audioContextsRef\<close>, \<^verbatim>\<open>sourcesRef\<close>,
  \<^verbatim>\<open>nextStartTimeRef\<close>, \<^verbatim>\<open>activeSessionIdRef\<close>, \<^verbatim>\<open>mediaStreamRef\<close>,
  \<^verbatim>\<open>frameIntervalRef\<close>, \<^verbatim>\<open>canvasRef\<close>). Its effects on the browser are kept in the
  same record: the buffer sources it created, the audio contexts it closed, the media
  streams whose tracks it stopped, the timers it cleared, the canvas captures it
  started and the media it sent to a remote session. Audio contexts, streams and timers
  are named by numbers; a buffer source is named by its position in \<open>nodes\<close>.

  Every callback is one atomic step of the single thread. A callback registered by a
  call of \<^verbatim>\<open>connect\<close> carries the variables that call closed over (\<open>closure\<close>).
  \<^verbatim>\<open>connect\<close> is two steps, before and after its \<^verbatim>\<open>await\<close> of \<^verbatim>\<open>getUserMedia\<close>, so
  that other events can come between them. A call of \<^verbatim>\<open>cleanup\<close> is up to three steps:
  it is suspended at each \<^verbatim>\<open>await\<close> of a \<^verbatim>\<open>close()\<close>, with \<^verbatim>\<open>audioContextsRef\<close> still
  holding both contexts, and resumed later (\<open>cleanup_begin\<close>, \<open>cleanup_resume\<close>);
  \<open>cleanup\<close> is the call that nothing comes between, as in the \<^verbatim>\<open>await cleanup()\<close> of a
  \<^verbatim>\<open>connect\<close> that runs alone. The other short waits (resuming an audio context,
  \<^verbatim>\<open>decodePCM\<close>, reading a blob) are inside one step. Times are
  readings of the output context's clock, as real numbers. The input level published
  for the animation and the gain node are left out: no handler reads them.

  \<^verbatim>\<open>audioContextsRef.current\<close> is the pair \<open>ctx_input\<close>, \<open>ctx_output\<close>. The component
  renders a \<^verbatim>\<open>video\<close> element with \<^verbatim>\<open>videoRef\<close> in vision mode, so the element is an
  input of the timer callback; it renders no element with \<^verbatim>\<open>canvasRef\<close>, so that ref
  is state that only the component's own code could set.
\<close>

datatype status = Connecting | Listening | Speaking | Error

datatype ui_mode = Voice | Vision

record source_node =
  start_at :: real \<comment> \<open>the argument of \<^verbatim>\<open>source.start\<close>\<close>
  buf_duration :: real
  created_at :: real \<comment> \<open>\<^verbatim>\<open>outputCtx.currentTime\<close> when the chunk was handled\<close>
  stopped :: bool \<comment> \<open>\<^verbatim>\<open>stop()\<close> has been called on it\<close>

record media =
  media_data :: js_string
  mimeType :: js_string

record capture =
  cap_session :: session_id
  cap_width :: nat
  cap_height :: nat
  cap_type :: js_string
  cap_quality :: real

record message =
  inputTranscription :: "js_string option"
  outputTranscription :: "js_string option"
  turnComplete :: bool
  audioBase64 :: "js_string option"
  interrupted :: bool

record closure =
  sessionId :: session_id
  mode :: ui_mode

record overlay =
  status :: status
  isConnected :: bool
  inputTranscript :: js_string
  outputTranscript :: js_string
  detectedLang :: js_string
  ctx_input :: "nat option"
  ctx_output :: "nat option"
  sources :: "nat set"
  nextStartTime :: real
  activeSessionId :: "session_id option"
  mediaStream :: "nat option"
  frameInterval :: "nat option"
  canvasRef :: "bool option" \<comment> \<open>a mounted canvas, and whether it gives a 2d context\<close>
  nodes :: "source_node list"
  closedContexts :: "nat set"
  stoppedStreams :: "nat set"
  clearedIntervals :: "nat set"
  captures :: "capture list"
  sent :: "(session_id \<times> media) list"

definition initial :: overlay where
  \<comment> \<open>the \<^verbatim>\<open>useState\<close> and \<^verbatim>\<open>useRef\<close> initial values\<close>
  "initial =
     \<lparr>status = Connecting, isConnected = False, inputTranscript = [], outputTranscript = [],
      detectedLang = js_str ''AUTO'', ctx_input = None, ctx_output = None, sources = {},
      nextStartTime = 0, activeSessionId = None, mediaStream = None, frameInterval = None,
      canvasRef = None, nodes = [], closedContexts = {}, stoppedStreams = {},
      clearedIntervals = {}, captures = [], sent = []\<rparr>"

definition stale :: "closure \<Rightarrow> overlay \<Rightarrow> bool" where
  \<comment> \<open>\<^verbatim>\<open>activeSessionIdRef.current !== sessionId\<close>\<close>
  "stale c w \<longleftrightarrow> activeSessionId w \<noteq> Some (sessionId c)"

definition stop_sources :: "overlay \<Rightarrow> overlay" where
  \<comment> \<open>\<^verbatim>\<open>for (const s of sourcesRef.current) { try { s.stop(); } catch(e) {} }\<close> and
      \<^verbatim>\<open>sourcesRef.current.clear()\<close>\<close>
  "stop_sources w =
     w\<lparr>nodes := map (\<lambda>i. if i \<in> sources w then (nodes w ! i)\<lparr>stopped := True\<rparr> else nodes w ! i)
                  [0..<length (nodes w)],
       sources := {}\<rparr>"

definition clear_frame_interval :: "overlay \<Rightarrow> overlay" where
  \<comment> \<open>\<^verbatim>\<open>if (frameIntervalRef.current) window.clearInterval(frameIntervalRef.current)\<close>;
      the ref keeps the id\<close>
  "clear_frame_interval w =
     (case frameInterval w of
        None \<Rightarrow> w
      | Some t \<Rightarrow> if t = 0 then w else w\<lparr>clearedIntervals := insert t (clearedIntervals w)\<rparr>)"

definition stop_media_tracks :: "overlay \<Rightarrow> overlay" where
  \<comment> \<open>\<^verbatim>\<open>mediaStreamRef.current.getTracks().forEach(t => t.stop())\<close> and
      \<^verbatim>\<open>mediaStreamRef.current = null\<close>\<close>
  "stop_media_tracks w =
     (case mediaStream w of
        None \<Rightarrow> w
      | Some st \<Rightarrow> w\<lparr>stoppedStreams := insert st (stoppedStreams w), mediaStream := None\<rparr>)"

definition close_context :: "nat \<Rightarrow> overlay \<Rightarrow> (js_error \<times> overlay) + overlay" where
  \<comment> \<open>\<^verbatim>\<open>ctx.close()\<close>: on a closed context the promise it returns is rejected with an
      InvalidStateError; otherwise the context is closed from this call on\<close>
  "close_context x w =
     (if x \<in> closedContexts w then Inl (InvalidStateError, w)
      else Inr (w\<lparr>closedContexts := insert x (closedContexts w)\<rparr>))"

datatype pending = InputClose | OutputClose

datatype outcome =
    Returned overlay
  | Rejected js_error overlay
  | Suspended pending "js_error option" overlay
    \<comment> \<open>waiting at the \<^verbatim>\<open>await\<close> of a \<^verbatim>\<open>close()\<close> whose promise is rejected with the
        error, or fulfilled\<close>

definition await_close :: "pending \<Rightarrow> nat \<Rightarrow> overlay \<Rightarrow> outcome" where
  \<comment> \<open>\<^verbatim>\<open>await ctx.close()\<close>: the call is made, then \<^verbatim>\<open>cleanup\<close> is suspended\<close>
  "await_close p x w =
     (case close_context x w of
        Inl (err, w1) \<Rightarrow> Suspended p (Some err) w1
      | Inr w1 \<Rightarrow> Suspended p None w1)"

definition cleanup_end :: "overlay \<Rightarrow> overlay" where
  \<comment> \<open>\<^verbatim>\<open>audioContextsRef.current = {}\<close> and \<^verbatim>\<open>setIsConnected(false)\<close>\<close>
  "cleanup_end w = w\<lparr>ctx_input := None, ctx_output := None, isConnected := False\<rparr>"

definition cleanup_output :: "overlay \<Rightarrow> outcome" where
  \<comment> \<open>\<^verbatim>\<open>cleanup\<close> from
      \<^verbatim>\<open>if (audioContextsRef.current.output) await audioContextsRef.current.output.close()\<close> on\<close>
  "cleanup_output w =
     (case ctx_output w of
        None \<Rightarrow> Returned (cleanup_end w)
      | Some y \<Rightarrow> await_close OutputClose y w)"

definition cleanup_begin :: "overlay \<Rightarrow> outcome" where
  \<comment> \<open>a call of \<^verbatim>\<open>cleanup\<close> up to its first \<^verbatim>\<open>await\<close>: the ref still holds the contexts
      when the call is suspended\<close>
  "cleanup_begin w =
     (let w1 = stop_sources (stop_media_tracks (clear_frame_interval (w\<lparr>activeSessionId := None\<rparr>)))
      in case ctx_input w1 of
           None \<Rightarrow> cleanup_output w1
         | Some x \<Rightarrow> await_close InputClose x w1)"

definition cleanup_resume :: "pending \<Rightarrow> js_error option \<Rightarrow> overlay \<Rightarrow> outcome" where
  \<comment> \<open>a suspended call goes on: the \<^verbatim>\<open>await\<close> throws if the promise was rejected\<close>
  "cleanup_resume p r w =
     (case r of
        Some err \<Rightarrow> Rejected err w
      | None \<Rightarrow> (case p of InputClose \<Rightarrow> cleanup_output w | OutputClose \<Rightarrow> Returned (cleanup_end w)))"

fun resume :: "outcome \<Rightarrow> outcome" where
  "resume (Suspended p r w) = cleanup_resume p r w"
| "resume (Returned w) = Returned w"
| "resume (Rejected err w) = Rejected err w"

fun state_of :: "outcome \<Rightarrow> overlay" where
  "state_of (Returned w) = w"
| "state_of (Rejected err w) = w"
| "state_of (Suspended p r w) = w"

definition close_contexts :: "overlay \<Rightarrow> (js_error \<times> overlay) + overlay" where
  \<comment> \<open>\<^verbatim>\<open>if (audioContextsRef.current.input) await audioContextsRef.current.input.close()\<close>,
      then the same for \<^verbatim>\<open>output\<close>\<close>
  "close_contexts w =
     (case (case ctx_input w of None \<Rightarrow> Inr w | Some x \<Rightarrow> close_context x w) of
        Inl err \<Rightarrow> Inl err
      | Inr w1 \<Rightarrow> (case ctx_output w1 of None \<Rightarrow> Inr w1 | Some x \<Rightarrow> close_context x w1))"

definition cleanup :: "overlay \<Rightarrow> (js_error \<times> overlay) + overlay" where
  \<comment> \<open>a call of \<^verbatim>\<open>cleanup\<close> that nothing comes between: begun and resumed at once after
      each wait. A rejected \<^verbatim>\<open>close()\<close> ends it with the state reached so far\<close>
  "cleanup w =
     (case close_contexts
             (stop_sources (stop_media_tracks (clear_frame_interval (w\<lparr>activeSessionId := None\<rparr>)))) of
        Inl err \<Rightarrow> Inl err
      | Inr w1 \<Rightarrow> Inr (w1\<lparr>ctx_input := None, ctx_output := None, isConnected := False\<rparr>))"

definition connect_begin ::
  "closure \<Rightarrow> (nat \<times> nat) option \<Rightarrow> overlay \<Rightarrow> (js_error \<times> overlay) + overlay" where
  \<comment> \<open>\<^verbatim>\<open>connect\<close> up to \<^verbatim>\<open>await getUserMedia\<close>. The closure holds the fresh session id
      and the mode. The second argument names the two new audio contexts, or is \<open>None\<close>
      when creating or resuming them throws, which the \<^verbatim>\<open>catch\<close> turns into the error
      status. A rejected \<^verbatim>\<open>await cleanup()\<close> is outside the \<^verbatim>\<open>try\<close>.\<close>
  "connect_begin c ctxs w =
     (case cleanup w of
        Inl err \<Rightarrow> Inl err
      | Inr w1 \<Rightarrow>
          (let w2 = w1\<lparr>activeSessionId := Some (sessionId c), status := Connecting\<rparr>
           in case ctxs of
                None \<Rightarrow> Inr (w2\<lparr>status := Error\<rparr>)
              | Some (i, out) \<Rightarrow> Inr (w2\<lparr>ctx_input := Some i, ctx_output := Some out\<rparr>)))"

definition connect_media :: "closure \<Rightarrow> nat option \<Rightarrow> overlay \<Rightarrow> overlay" where
  \<comment> \<open>\<^verbatim>\<open>connect\<close> after \<^verbatim>\<open>await getUserMedia\<close>: the stream, or \<open>None\<close> when the request
      was rejected (the \<^verbatim>\<open>catch\<close>). Then \<^verbatim>\<open>ai.live.connect\<close> registers the callbacks.\<close>
  "connect_media c stream w =
     (case stream of
        None \<Rightarrow> w\<lparr>status := Error\<rparr>
      | Some st \<Rightarrow>
          if stale c w then w\<lparr>stoppedStreams := insert st (stoppedStreams w)\<rparr>
          else w\<lparr>mediaStream := Some st\<rparr>)"

definition onopen :: "closure \<Rightarrow> nat \<Rightarrow> overlay \<Rightarrow> overlay" where
  \<comment> \<open>the second argument is the id \<^verbatim>\<open>window.setInterval\<close> returns in vision mode\<close>
  "onopen c timer w =
     (if stale c w then w
      else let w1 = w\<lparr>isConnected := True, status := Listening\<rparr>
           in if mode c = Vision then w1\<lparr>frameInterval := Some timer\<rparr> else w1)"

definition onaudioprocess :: "closure \<Rightarrow> real list \<Rightarrow> overlay \<Rightarrow> overlay" where
  "onaudioprocess c inputData w =
     (if stale c w then w
      else case encodeBase64 (pcm16_bytes inputData) of
             Inl err \<Rightarrow> w
           | Inr b64 \<Rightarrow>
               w\<lparr>sent := sent w @ [(sessionId c,
                    \<lparr>media_data = b64, mimeType = js_str ''audio/pcm;rate=16000''\<rparr>)]\<rparr>)"

definition frame_tick :: "closure \<Rightarrow> nat option \<Rightarrow> overlay \<Rightarrow> overlay" where
  \<comment> \<open>the interval callback; the second argument is \<^verbatim>\<open>videoRef.current\<close>, as the
      \<^verbatim>\<open>readyState\<close> of the mounted video element\<close>
  "frame_tick c video w =
     (if stale c w \<or> video = None \<or> canvasRef w = None then w
      else if the (canvasRef w) \<and> 2 \<le> the video
           then w\<lparr>captures := captures w @
                  [\<lparr>cap_session = sessionId c, cap_width = 320, cap_height = 240,
                    cap_type = js_str ''image/jpeg'', cap_quality = 1 / 2\<rparr>]\<rparr>
           else w)"

definition blob_done :: "closure \<Rightarrow> js_string option \<Rightarrow> overlay \<Rightarrow> overlay" where
  \<comment> \<open>the callback of \<^verbatim>\<open>canvas.toBlob\<close>, with the blob as the base64 part of its data URL\<close>
  "blob_done c blob w =
     (case blob of
        None \<Rightarrow> w
      | Some d \<Rightarrow>
          w\<lparr>sent := sent w @ [(sessionId c,
               \<lparr>media_data = d, mimeType = js_str ''image/jpeg''\<rparr>)]\<rparr>)"

definition on_input_transcription :: "js_string \<Rightarrow> overlay \<Rightarrow> overlay" where
  "on_input_transcription text w =
     (let (lang, cleaned) = parseLang text (detectedLang w)
      in w\<lparr>detectedLang := lang, inputTranscript := inputTranscript w @ cleaned\<rparr>)"

definition on_output_transcription :: "js_string \<Rightarrow> overlay \<Rightarrow> overlay" where
  "on_output_transcription text w =
     (let (lang, cleaned) = parseLang text (detectedLang w)
      in w\<lparr>detectedLang := lang, outputTranscript := outputTranscript w @ cleaned\<rparr>)"

definition on_transcripts :: "message \<Rightarrow> overlay \<Rightarrow> overlay" where
  "on_transcripts m w =
     (let w1 = (case inputTranscription m of None \<Rightarrow> w | Some t \<Rightarrow> on_input_transcription t w);
          w2 = (case outputTranscription m of None \<Rightarrow> w1 | Some t \<Rightarrow> on_output_transcription t w1)
      in if turnComplete m then w2\<lparr>inputTranscript := [], outputTranscript := []\<rparr> else w2)"

definition on_audio :: "real \<Rightarrow> js_string \<Rightarrow> overlay \<Rightarrow> (js_error \<times> overlay) + overlay" where
  \<comment> \<open>the \<^verbatim>\<open>if (audioBase64)\<close> block; a throw of \<^verbatim>\<open>decodeBase64\<close> or \<^verbatim>\<open>decodePCM\<close> ends
      the handler with the state reached so far\<close>
  "on_audio now b64 w =
     (let w1 = w\<lparr>status := Speaking, nextStartTime := max (nextStartTime w) now\<rparr>
      in case decodeBase64 b64 of
           Inl err \<Rightarrow> Inl (err, w1)
         | Inr bytes \<Rightarrow>
             (case decodePCM bytes 24000 1 of
                Inl err \<Rightarrow> Inl (err, w1)
              | Inr buffer \<Rightarrow>
                  Inr (w1\<lparr>nodes := nodes w1 @
                            [\<lparr>start_at = nextStartTime w1, buf_duration = duration buffer,
                              created_at = now, stopped = False\<rparr>],
                          nextStartTime := nextStartTime w1 + duration buffer,
                          sources := insert (length (nodes w1)) (sources w1)\<rparr>)))"

definition decodes :: "js_string \<Rightarrow> bool" where
  \<comment> \<open>neither \<^verbatim>\<open>decodeBase64\<close> nor \<^verbatim>\<open>decodePCM\<close> throws on the chunk\<close>
  "decodes b64 \<longleftrightarrow>
     (case decodeBase64 b64 of
        Inl err \<Rightarrow> False
      | Inr bytes \<Rightarrow> (case decodePCM bytes 24000 1 of Inl err \<Rightarrow> False | Inr buffer \<Rightarrow> True))"

definition on_interrupted :: "overlay \<Rightarrow> overlay" where
  "on_interrupted w = (stop_sources w)\<lparr>nextStartTime := 0, status := Listening\<rparr>"

definition has_audio :: "message \<Rightarrow> bool" where
  \<comment> \<open>\<^verbatim>\<open>if (audioBase64)\<close>: present and not the empty string\<close>
  "has_audio m \<longleftrightarrow> (case audioBase64 m of None \<Rightarrow> False | Some b \<Rightarrow> b \<noteq> [])"

definition onmessage :: "closure \<Rightarrow> real \<Rightarrow> message \<Rightarrow> overlay \<Rightarrow> (js_error \<times> overlay) + overlay" where
  \<comment> \<open>the second argument is \<^verbatim>\<open>outputCtx.currentTime\<close>\<close>
  "onmessage c now m w =
     (if stale c w then Inr w
      else let w1 = on_transcripts m w
           in case (if has_audio m then on_audio now (the (audioBase64 m)) w1 else Inr w1) of
                Inl err \<Rightarrow> Inl err
              | Inr w2 \<Rightarrow> Inr (if interrupted m then on_interrupted w2 else w2))"

definition source_onended :: "closure \<Rightarrow> nat \<Rightarrow> overlay \<Rightarrow> overlay" where
  "source_onended c src w =
     (let w1 = w\<lparr>sources := sources w - {src}\<rparr>
      in if sources w1 = {} then w1\<lparr>status := Listening\<rparr> else w1)"

definition onerror :: "closure \<Rightarrow> overlay \<Rightarrow> overlay" where
  "onerror c w = w\<lparr>status := Error\<rparr>"

definition onclose :: "closure \<Rightarrow> overlay \<Rightarrow> overlay" where
  "onclose c w = w\<lparr>isConnected := False\<rparr>"

subsection \<open>Event traces\<close>

datatype event =
    ConnectBegin closure "(nat \<times> nat) option"
  | ConnectMedia closure "nat option"
  | Cleanup
  | CleanupBegin
  | CleanupResume pending "js_error option"
  | Open closure nat
  | AudioProcess closure "real list"
  | FrameTick closure "nat option"
  | BlobDone closure "js_string option"
  | Message closure real message
  | SourceEnded closure nat
  | StreamError closure
  | StreamClose closure

definition settle :: "(js_error \<times> overlay) + overlay \<Rightarrow> overlay" where
  \<comment> \<open>the state a handler leaves, whether it returned or threw\<close>
  "settle r = (case r of Inl (err, w) \<Rightarrow> w | Inr w \<Rightarrow> w)"

fun step :: "event \<Rightarrow> overlay \<Rightarrow> overlay" where
  "step (ConnectBegin c ctxs) w = settle (connect_begin c ctxs w)"
| "step (ConnectMedia c stream) w = connect_media c stream w"
| "step Cleanup w = settle (cleanup w)"
| "step CleanupBegin w = state_of (cleanup_begin w)"
| "step (CleanupResume p r) w = state_of (cleanup_resume p r w)"
| "step (Open c timer) w = onopen c timer w"
| "step (AudioProcess c inputData) w = onaudioprocess c inputData w"
| "step (FrameTick c video) w = frame_tick c video w"
| "step (BlobDone c blob) w = blob_done c blob w"
| "step (Message c now m) w = settle (onmessage c now m w)"
| "step (SourceEnded c src) w = source_onended c src w"
| "step (StreamError c) w = onerror c w"
| "step (StreamClose c) w = onclose c w"

definition run :: "event list \<Rightarrow> overlay \<Rightarrow> overlay" where
  "run evs w = foldl (\<lambda>w e. step e w) w evs"



definition schedule :: "overlay \<Rightarrow> (real \<times> real \<times> real) list" where
  \<comment> \<open>start, duration and clock reading of every chunk scheduled so far, in order\<close>
  "schedule w = map (\<lambda>n. (start_at n, buf_duration n, created_at n)) (nodes w)"




subsection \<open>Example inputs\<close>

definition demo_closure :: closure where
  "demo_closure = \<lparr>sessionId = ''session-1'', mode = Voice\<rparr>"

definition second_closure :: closure where
  "second_closure = \<lparr>sessionId = ''session-2'', mode = Vision\<rparr>"

definition silence :: message where
  \<comment> \<open>an audio chunk of two zero samples, 1/12000 s at 24 kHz\<close>
  "silence = \<lparr>inputTranscription = None, outputTranscription = None, turnComplete = False,
              audioBase64 = Some (js_str ''AAAAAA==''), interrupted = False\<rparr>"

definition interruption :: message where
  "interruption = \<lparr>inputTranscription = None, outputTranscription = None, turnComplete = False,
                   audioBase64 = None, interrupted = True\<rparr>"

definition demo_connect :: "event list" where
  \<comment> \<open>\<^verbatim>\<open>connect()\<close> in voice mode, the media grant and the open event\<close>
  "demo_connect =
     [ConnectBegin demo_closure (Some (1, 2)), ConnectMedia demo_closure (Some 3),
      Open demo_closure 7]"

definition mid_cleanup :: overlay where
  \<comment> \<open>the session of \<open>demo_connect\<close> once a call of \<^verbatim>\<open>cleanup\<close> has called \<^verbatim>\<open>close()\<close> on
      the input context and waits\<close>
  "mid_cleanup =
     initial\<lparr>status := Listening, isConnected := True, ctx_input := Some 1, ctx_output := Some 2,
             closedContexts := {1}, stoppedStreams := {3}\<rparr>"

definition demo_playing :: "event list" where
  \<comment> \<open>then two chunks, handled at clock 2 and 4, and the end of the first\<close>
  "demo_playing =
     demo_connect @
     [Message demo_closure 2 silence, Message demo_closure 4 silence,
      SourceEnded demo_closure 0]"


definition demo_reconnect :: "event list" where
  \<comment> \<open>a first session with one chunk scheduled, then a second \<^verbatim>\<open>connect()\<close>, in vision
      mode, up to its media grant\<close>
  "demo_reconnect =
     demo_connect @
     [Message demo_closure 2 silence,
      ConnectBegin second_closure (Some (4, 5)), ConnectMedia second_closure (Some 6)]"

section \<open>Base64 round trip\<close>

lemma b64_code_bound: "b64_code i < 128"
  unfolding b64_code_def by auto

lemma unat_b64_char: "unat (b64_char i) = b64_code i"
proof -
  have "b64_code i < 2 ^ LENGTH(16)" using b64_code_bound [of i] by simp
  then show ?thesis unfolding b64_char_def by (simp only: unat_of_nat mod_less)
qed

lemma b64_index_char: "i < 64 \<Longrightarrow> b64_index (b64_char i) = Some i"
  unfolding b64_index_def unat_b64_char b64_code_def Let_def by auto

lemma b64_char_not_ws: "\<not> is_ascii_whitespace (b64_char i)"
proof -
  have "unat (b64_char i) \<ge> 43" unfolding unat_b64_char b64_code_def by auto
  then show ?thesis unfolding is_ascii_whitespace_def by auto
qed

lemma b64_char_not_pad: "i < 64 \<Longrightarrow> b64_char i \<noteq> pad_char"
proof
  assume a: "i < 64" and "b64_char i = pad_char"
  then have "unat (b64_char i) = 61" by (simp add: pad_char_def)
  then show False using a unfolding unat_b64_char b64_code_def by (auto split: if_splits)
qed

lemma pad_not_ws: "\<not> is_ascii_whitespace pad_char"
  by (simp add: is_ascii_whitespace_def pad_char_def)

lemma decode_one: "(a div 4 * 64 + (a mod 4) * 16) div 16 = (a::nat)"
proof -
  have "a div 4 * 64 + (a mod 4) * 16 = 16 * a"
    using mult_div_mod_eq [of 4 a] by linarith
  then show ?thesis by simp
qed

lemma group_two_alg:
  "(q1 * 64 + (r1 * 16 + q2)) * 64 + r2 * 4 = 4 * ((4 * q1 + r1) * 256 + (16 * q2 + r2 :: nat))"
  by (simp add: algebra_simps)

lemma group_three_alg:
  "((q1 * 64 + (r1 * 16 + q2)) * 64 + (r2 * 4 + q3)) * 64 + r3
     = (4 * q1 + r1) * 65536 + (16 * q2 + r2) * 256 + (64 * q3 + r3 :: nat)"
  by (simp add: algebra_simps)

lemma decode_two_eq:
  "((a div 4 * 64 + ((a mod 4) * 16 + b div 16)) * 64 + (b mod 16) * 4) div 4 = a * 256 + (b::nat)"
  unfolding group_two_alg mult_div_mod_eq by simp

lemma decode_three_eq:
  "((a div 4 * 64 + ((a mod 4) * 16 + b div 16)) * 64 + ((b mod 16) * 4 + c div 64)) * 64 + c mod 64
    = a * 65536 + b * 256 + (c::nat)"
  unfolding group_three_alg mult_div_mod_eq by simp

lemma bytes_of_three:
  assumes "a < 256" "b < 256" "c < (256::nat)"
  shows "(a * 65536 + b * 256 + c) div 65536 = a"
    and "(a * 65536 + b * 256 + c) div 256 mod 256 = b"
    and "(a * 65536 + b * 256 + c) mod 256 = c"
proof -
  have e1: "a * 65536 + b * 256 + c = (b * 256 + c) + a * 65536" by simp
  have "b * 256 + c < 65536" using assms by linarith
  then show "(a * 65536 + b * 256 + c) div 65536 = a" unfolding e1 by simp
  have e2: "a * 65536 + b * 256 + c = c + (a * 256 + b) * 256" by simp
  have "(c + (a * 256 + b) * 256) div 256 = a * 256 + b" using assms(3) by simp
  then show "(a * 65536 + b * 256 + c) div 256 mod 256 = b" unfolding e2 using assms(2) by simp
  have "(c + (a * 256 + b) * 256) mod 256 = c mod 256" by (rule mod_mult_self1)
  then show "(a * 65536 + b * 256 + c) mod 256 = c" unfolding e2 using assms(3) by (simp only: mod_less)
qed

lemma bytes_of_two:
  assumes "a < 256" "b < (256::nat)"
  shows "(a * 256 + b) div 256 = a" and "(a * 256 + b) mod 256 = b"
  using assms by simp_all

lemma sextet_bounds:
  assumes "a < 256" "b < (256::nat)" "c < (256::nat)"
  shows "a div 4 < 64 \<and> (a mod 4) * 16 + b div 16 < 64 \<and> (a mod 4) * 16 < 64 \<and>
         (b mod 16) * 4 + c div 64 < 64 \<and> (b mod 16) * 4 < 64 \<and> c mod 64 < 64"
proof -
  have "a mod 4 \<le> 3" "b mod 16 \<le> 15" "b div 16 \<le> 15" "c div 64 \<le> 3" "a div 4 < 64"
    using assms by simp_all
  then show ?thesis by simp
qed

lemma sextets_lt64: "\<forall>b \<in> set bs. b < 256 \<Longrightarrow> \<forall>s \<in> set (sextets bs). s < 64"
proof (induction bs rule: sextets.induct)
  case (1 a b c rest)
  then have abc: "a < 256" "b < 256" "c < 256" by simp_all
  show ?case using sextet_bounds [of a b c] abc 1 by simp
next
  case (2 a b)
  then have ab: "a < 256" "b < 256" by simp_all
  show ?case using sextet_bounds [of a b 0] ab by simp
next
  case (3 a)
  then have "a < 256" by simp
  then show ?case using sextet_bounds [of a 0 0] by simp
qed simp

lemma length_sextets: "length (sextets bs) = (4 * length bs + 2) div 3"
  by (induction bs rule: sextets.induct) simp_all

lemma decode_sextets: "\<forall>b \<in> set bs. b < 256 \<Longrightarrow> b64_decode_groups (sextets bs) = bs"
proof (induction bs rule: sextets.induct)
  case (1 a b c rest)
  then have abc: "a < 256" "b < 256" "c < 256" and rest: "b64_decode_groups (sextets rest) = rest"
    by simp_all
  show ?case
    unfolding sextets.simps append_Cons append_Nil b64_decode_groups.simps Let_def
      decode_three_eq rest
    using bytes_of_three [OF abc] by simp
next
  case (2 a b)
  then have ab: "a < 256" "b < 256" by simp_all
  show ?case
    unfolding sextets.simps b64_decode_groups.simps Let_def decode_two_eq
    using bytes_of_two [OF ab] by simp
next
  case (3 a)
  show ?case unfolding sextets.simps b64_decode_groups.simps decode_one by simp
qed simp

lemma filter_encode: "filter (\<lambda>c. \<not> is_ascii_whitespace c) (b64_encode bs) = b64_encode bs"
  unfolding b64_encode_def by (simp add: filter_id_conv b64_char_not_ws pad_not_ws)

lemma length_encode: "length (b64_encode bs) mod 4 = 0"
proof -
  have "((4 * n + 2) div 3 + (if n mod 3 = 0 then 0 else 3 - n mod 3)) mod 4 = (0::nat)" for n
    by presburger
  then show ?thesis by (simp add: b64_encode_def length_sextets pad_count_def)
qed

lemma length_sextets_mod4: "length (sextets bs) mod 4 \<noteq> 1"
proof -
  have "(4 * n + 2) div 3 mod 4 \<noteq> (1::nat)" for n by presburger
  then show ?thesis by (simp add: length_sextets)
qed

lemma pad_count_le: "pad_count bs \<le> 2"
  unfolding pad_count_def by auto

lemma strip_padding_body:
  assumes "pad_char \<notin> set body" "k \<le> 2"
  shows "strip_padding (body @ replicate k pad_char) = body"
proof -
  consider "k = 0" | "k = 1" | "k = 2" using assms(2) by linarith
  then show ?thesis
  proof cases
    case 1
    show ?thesis
    proof (cases "rev body")
      case Nil
      then show ?thesis using 1 by (simp add: strip_padding_def)
    next
      case (Cons p r)
      then have "p \<in> set body" by (metis list.set_intros(1) set_rev)
      then have "p \<noteq> pad_char" using assms(1) by auto
      then show ?thesis using 1 Cons by (simp add: strip_padding_def split: list.splits)
    qed
  next
    case 2
    show ?thesis
    proof (cases "rev body")
      case Nil
      then show ?thesis using 2 by (simp add: strip_padding_def)
    next
      case (Cons q r)
      then have "q \<in> set body" by (metis list.set_intros(1) set_rev)
      then have "q \<noteq> pad_char" using assms(1) by auto
      have revb: "rev (q # r) = body" using Cons by (metis rev_rev_ident)
      have r: "rev (body @ replicate k pad_char) = pad_char # q # r" using 2 Cons by simp
      have "strip_padding (body @ replicate k pad_char) = rev (q # r)"
        unfolding strip_padding_def r using \<open>q \<noteq> pad_char\<close> by simp
      then show ?thesis unfolding revb .
    qed
  next
    case 3
    then have "rev (body @ replicate k pad_char) = pad_char # pad_char # rev body"
      by (simp add: numeral_2_eq_2)
    then show ?thesis by (simp add: strip_padding_def)
  qed
qed

lemma those_index: "\<forall>s \<in> set sx. s < 64 \<Longrightarrow> those (map b64_index (map b64_char sx)) = Some sx"
  by (induction sx) (simp_all add: b64_index_char)

lemma atob_encode:
  assumes "\<forall>b \<in> set bs. b < 256"
  shows "atob (b64_encode bs) = Inr (map of_nat bs)"
proof -
  let ?body = "map b64_char (sextets bs)"
  have lt: "\<forall>s \<in> set (sextets bs). s < 64" using assms by (rule sextets_lt64)
  have nopad: "pad_char \<notin> set ?body"
  proof
    assume "pad_char \<in> set ?body"
    then obtain s where "s \<in> set (sextets bs)" "b64_char s = pad_char" by auto
    then show False using lt b64_char_not_pad by blast
  qed
  have strip: "strip_padding (b64_encode bs) = ?body"
    unfolding b64_encode_def using nopad pad_count_le by (rule strip_padding_body)
  have len: "length ?body mod 4 \<noteq> 1" using length_sextets_mod4 by simp
  show ?thesis
    unfolding atob_def filter_encode Let_def
    using length_encode [of bs] strip len those_index [OF lt] decode_sextets [OF assms]
    by simp
qed

lemma ucast_byte_le: "\<not> 0xFF < (ucast (b :: byte) :: code_unit)"
proof -
  have "unat b < 256" using unsigned_less [of b, where 'a = nat] by simp
  then have "unat (ucast b :: code_unit) < 256" by (simp add: unsigned_ucast_eq take_bit_nat_eq_self)
  then show ?thesis by (simp add: word_less_nat_alt)
qed

lemma byte_roundtrip: "(ucast (of_nat (unat (ucast (b :: byte) :: code_unit)) :: code_unit) :: byte) = b"
  by (simp add: ucast_up_ucast_id is_up)

lemma unat_ucast_byte: "unat (ucast (b :: byte) :: code_unit) < 256"
proof -
  have "unat b < 256" using unsigned_less [of b, where 'a = nat] by simp
  then show ?thesis by (simp add: unsigned_ucast_eq take_bit_nat_eq_self)
qed

text \<open>
  Claim C9. For every byte array \<open>b\<close>, \<^verbatim>\<open>encodeBase64\<close> returns a string and
  \<^verbatim>\<open>decodeBase64\<close> of that string returns \<open>b\<close> itself: the same length and the same
  element at every index.
\<close>

theorem decodeBase64_encodeBase64:
  "\<exists>s. encodeBase64 b = Inr s \<and> decodeBase64 s = Inr b"
proof -
  let ?bs = "map unat (map ucast b :: code_unit list)"
  have enc: "encodeBase64 b = Inr (b64_encode ?bs)"
    unfolding encodeBase64_def btoa_def using ucast_byte_le by auto
  have "\<forall>x \<in> set ?bs. x < 256" using unat_ucast_byte by auto
  then have "atob (b64_encode ?bs) = Inr (map of_nat ?bs)" by (rule atob_encode)
  then have "decodeBase64 (b64_encode ?bs) = Inr (map ucast (map of_nat ?bs :: code_unit list))"
    by (simp add: decodeBase64_def)
  moreover have "map ucast (map of_nat ?bs :: code_unit list) = b"
    using byte_roundtrip by (simp add: map_idI comp_def)
  ultimately show ?thesis using enc by simp
qed

theorem decodeBase64_encodeBase64_witness:
  "\<exists>s. encodeBase64 [0x48, 0x69, 0xFF, 0x00] = Inr s \<and> decodeBase64 s = Inr [0x48, 0x69, 0xFF, 0x00]"
  using decodeBase64_encodeBase64 [of "[0x48, 0x69, 0xFF, 0x00]"] by simp

section \<open>PCM16 round trip\<close>

lemma int16_of_bytes: "int16_view (int16_bytes w) = [w]"
proof -
  have "int16_of (ucast w) (ucast (drop_bit 8 w)) = w"
    unfolding int16_of_def by (rule bit_word_eqI) (auto simp: bit_simps)
  then show ?thesis by (simp add: int16_bytes_def)
qed

lemma rne_ge: "of_int n \<le> y \<Longrightarrow> n \<le> rne y"
proof -
  assume "of_int n \<le> y"
  then have "n \<le> \<lfloor>y\<rfloor>" by (simp add: le_floor_iff)
  then show ?thesis unfolding rne_def Let_def by auto
qed

lemma rne_le: "y \<le> of_int n \<Longrightarrow> rne y \<le> n"
proof -
  assume a: "y \<le> of_int n"
  then have le: "\<lfloor>y\<rfloor> \<le> n" by (simp add: floor_le_iff)
  show ?thesis
  proof (cases "\<lfloor>y\<rfloor> = n")
    case True
    then have "y - of_int \<lfloor>y\<rfloor> \<le> 0" using a by simp
    then show ?thesis unfolding rne_def Let_def using True by auto
  next
    case False
    then have "\<lfloor>y\<rfloor> + 1 \<le> n" using le by linarith
    then show ?thesis unfolding rne_def Let_def by auto
  qed
qed

lemma powi_nonpos: "t \<le> 0 \<Longrightarrow> (2::real) powi t = 1 / 2 ^ nat (- t)"
  by (cases "t = 0") (auto simp: power_int_def field_simps power_inverse)

lemma ilog2_le:
  assumes "0 < x" "x < 2 ^ k" "1 \<le> k"
  shows "ilog2 x \<le> int k - 1"
proof (cases "1 \<le> x")
  case True
  have "\<lfloor>x\<rfloor> < 2 ^ k" using assms(2) by (simp add: floor_less_iff)
  then have "bitlen \<lfloor>x\<rfloor> \<le> int k" by (simp add: bitlen_le_iff_power)
  then show ?thesis using True by (simp add: ilog2_def)
next
  case False
  have "0 \<le> bitlen (\<lceil>1 / x\<rceil> - 1)" by (rule bitlen_nonneg)
  then show ?thesis using False assms(3) by (simp add: ilog2_def)
qed

lemma fp_round_scaled:
  assumes "x \<noteq> 0" "\<bar>x\<bar> < 2 ^ k" "1 \<le> k" "1 \<le> emax" "j + k \<le> p"
  shows "\<exists>m. j \<le> m \<and> fp_round p emax x = of_int (rne (x * 2 ^ m)) / 2 ^ m"
proof -
  define e where "e = max (ilog2 \<bar>x\<bar>) (1 - emax)"
  define t where "t = e - int p + 1"
  have "ilog2 \<bar>x\<bar> \<le> int k - 1" using assms(1-3) by (intro ilog2_le) auto
  then have "e \<le> int k - 1" using assms(3,4) by (simp add: e_def)
  then have t: "t \<le> - int j" using assms(5) by (simp add: t_def)
  then have q: "(2::real) powi t = 1 / 2 ^ nat (- t)" by (intro powi_nonpos) simp
  have "fp_round p emax x = of_int (rne (x / (2 powi t))) * (2 powi t)"
    using assms(1) by (simp add: fp_round_def Let_def e_def t_def)
  then have "fp_round p emax x = of_int (rne (x * 2 ^ nat (- t))) / 2 ^ nat (- t)"
    unfolding q by simp
  moreover have "j \<le> nat (- t)" using t by simp
  ultimately show ?thesis by blast
qed

lemma scale_dyadic:
  assumes "j \<le> m"
  shows "real_of_int i / 2 ^ j * 2 ^ m = of_int (i * 2 ^ (m - j))"
proof -
  have "(2::real) ^ m = 2 ^ j * 2 ^ (m - j)" using assms by (simp flip: power_add)
  then show ?thesis by simp
qed

lemma fp_round_le:
  assumes "\<bar>x\<bar> < 2 ^ k" "1 \<le> k" "1 \<le> emax" "j + k \<le> p" "x \<le> of_int i / 2 ^ j"
  shows "fp_round p emax x \<le> of_int i / 2 ^ j"
proof (cases "x = 0")
  case True
  then show ?thesis using assms(5) by (simp add: fp_round_def)
next
  case False
  then obtain m where m: "j \<le> m" "fp_round p emax x = of_int (rne (x * 2 ^ m)) / 2 ^ m"
    using fp_round_scaled [OF False assms(1-4)] by blast
  have "x * 2 ^ m \<le> of_int i / 2 ^ j * 2 ^ m" by (rule mult_right_mono [OF assms(5)]) simp
  then have "x * 2 ^ m \<le> of_int (i * 2 ^ (m - j))" by (simp only: scale_dyadic [OF m(1)])
  then have "rne (x * 2 ^ m) \<le> i * 2 ^ (m - j)" by (rule rne_le)
  then have "real_of_int (rne (x * 2 ^ m)) \<le> of_int (i * 2 ^ (m - j))" by (simp only: of_int_le_iff)
  then have "real_of_int (rne (x * 2 ^ m)) \<le> of_int i / 2 ^ j * 2 ^ m"
    by (simp only: scale_dyadic [OF m(1)])
  then have "real_of_int (rne (x * 2 ^ m)) / 2 ^ m \<le> of_int i / 2 ^ j"
    by (simp add: divide_le_eq)
  then show ?thesis by (simp only: m(2))
qed

lemma fp_round_ge:
  assumes "\<bar>x\<bar> < 2 ^ k" "1 \<le> k" "1 \<le> emax" "j + k \<le> p" "of_int i / 2 ^ j \<le> x"
  shows "of_int i / 2 ^ j \<le> fp_round p emax x"
proof (cases "x = 0")
  case True
  then show ?thesis using assms(5) by (simp add: fp_round_def)
next
  case False
  then obtain m where m: "j \<le> m" "fp_round p emax x = of_int (rne (x * 2 ^ m)) / 2 ^ m"
    using fp_round_scaled [OF False assms(1-4)] by blast
  have "of_int i / 2 ^ j * 2 ^ m \<le> x * 2 ^ m" by (rule mult_right_mono [OF assms(5)]) simp
  then have "of_int (i * 2 ^ (m - j)) \<le> x * 2 ^ m" by (simp only: scale_dyadic [OF m(1)])
  then have "i * 2 ^ (m - j) \<le> rne (x * 2 ^ m)" by (rule rne_ge)
  then have "real_of_int (i * 2 ^ (m - j)) \<le> of_int (rne (x * 2 ^ m))" by (simp only: of_int_le_iff)
  then have "of_int i / 2 ^ j * 2 ^ m \<le> real_of_int (rne (x * 2 ^ m))"
    by (simp only: scale_dyadic [OF m(1)])
  then have "of_int i / 2 ^ j \<le> real_of_int (rne (x * 2 ^ m)) / 2 ^ m"
    by (simp add: le_divide_eq)
  then show ?thesis by (simp only: m(2))
qed

lemma fp_round_exact:
  assumes "\<bar>of_int i / 2 ^ j\<bar> < (2::real) ^ k" "1 \<le> k" "1 \<le> emax" "j + k \<le> p"
  shows "fp_round p emax (of_int i / 2 ^ j) = of_int i / 2 ^ j"
  using fp_round_le [OF assms, of i] fp_round_ge [OF assms, of i] by simp

lemma sint_of_int16:
  assumes "- 32768 \<le> n" "n < 32768"
  shows "sint (word_of_int n :: 16 word) = n"
  using assms by (simp add: signed_of_int signed_take_bit_int_eq_self)

lemma no_overflow_small:
  assumes "\<bar>r\<bar> < 2 ^ 15" "14 \<le> emax"
  shows "\<not> fp_overflow emax r"
proof -
  have "(2::real) ^ 15 \<le> 2 ^ nat (emax + 1)" using assms(2) by (intro power_increasing) auto
  moreover have "(2::real) powi (emax + 1) = 2 ^ nat (emax + 1)"
    using assms(2) by (simp add: power_int_def)
  ultimately show ?thesis using assms(1) by (simp add: fp_overflow_def)
qed

lemma sample_to_float_exact: "sample_to_float w = real_of_int (sint w) / 32768"
proof -
  have r: "- 32768 \<le> sint w" "sint w < 32768"
    using sint_ge [of w] sint_lt [of w] by simp_all
  have e: "(32768::real) = 2 ^ 15" by simp
  have "- 32768 \<le> real_of_int (sint w)" "real_of_int (sint w) < 32768" using r by linarith+
  then have "\<bar>real_of_int (sint w) / 2 ^ 15\<bar> < 2 ^ 1" by (simp add: abs_less_iff)
  then have "fp_round 53 1023 (real_of_int (sint w) / 2 ^ 15) = real_of_int (sint w) / 2 ^ 15"
            "fp_round 24 127 (real_of_int (sint w) / 2 ^ 15) = real_of_int (sint w) / 2 ^ 15"
    by (intro fp_round_exact [where k = 1]; simp)+
  then show ?thesis unfolding sample_to_float_def e by (simp only:)
qed

lemma js_trunc_between:
  assumes "of_int lo \<le> f" "f \<le> of_int hi"
  shows "lo \<le> js_trunc f \<and> js_trunc f \<le> hi"
  using assms unfolding js_trunc_def by (auto; linarith)

lemma round_between_int:
  assumes "\<bar>x\<bar> < 2 ^ 15" "15 \<le> p" "1 \<le> emax" "of_int lo \<le> x" "x \<le> of_int hi"
  shows "of_int lo \<le> fp_round p emax x \<and> fp_round p emax x \<le> of_int hi"
  using fp_round_ge [of x 15 emax 0 p lo] fp_round_le [of x 15 emax 0 p hi] assms by simp

lemma pcm_sample_int:
  assumes "\<bar>v\<bar> \<le> 1"
  shows "\<exists>n. pcm_sample v = word_of_int n \<and> \<lfloor>v * 32767\<rfloor> \<le> n \<and> n \<le> \<lceil>v * 32767\<rceil>"
proof -
  define x where "x = v * 32767"
  define d where "d = fp_round 53 1023 x"
  define f where "f = fp_round 24 127 d"
  have x: "- 32767 \<le> x" "x \<le> 32767" using assms by (simp_all add: x_def abs_le_iff)
  then have ax: "\<bar>x\<bar> < 2 ^ 15" by (simp add: abs_less_iff)
  have fl: "- 32767 \<le> \<lfloor>x\<rfloor>" and ce: "\<lceil>x\<rceil> \<le> 32767" using x by (simp_all add: le_floor_iff ceiling_le_iff)
  have d: "of_int \<lfloor>x\<rfloor> \<le> d \<and> d \<le> of_int \<lceil>x\<rceil>"
    unfolding d_def using ax by (intro round_between_int) simp_all
  then have "- 32767 \<le> d" "d \<le> 32767" using fl ce by linarith+
  then have ad: "\<bar>d\<bar> < 2 ^ 15" by (simp add: abs_less_iff)
  have f: "of_int \<lfloor>x\<rfloor> \<le> f \<and> f \<le> of_int \<lceil>x\<rceil>"
    unfolding f_def using ad d by (intro round_between_int) simp_all
  then have "- 32767 \<le> f" "f \<le> 32767" using fl ce by linarith+
  then have af: "\<bar>f\<bar> < 2 ^ 15" by (simp add: abs_less_iff)
  have "pcm_sample v = word_of_int (js_trunc f)"
    using no_overflow_small [OF ad, of 1023] no_overflow_small [OF af, of 127]
    by (simp add: pcm_sample_def Let_def x_def d_def f_def)
  moreover have "\<lfloor>x\<rfloor> \<le> js_trunc f \<and> js_trunc f \<le> \<lceil>x\<rceil>"
    using f by (intro js_trunc_between) simp_all
  ultimately show ?thesis unfolding x_def by blast
qed

lemma sample_roundtrip:
  assumes "\<bar>v\<bar> \<le> 1"
  shows "\<bar>sample_to_float (pcm_sample v) - v\<bar> < (1 + \<bar>v\<bar>) / 32768"
proof -
  obtain n where n: "pcm_sample v = word_of_int n" "\<lfloor>v * 32767\<rfloor> \<le> n" "n \<le> \<lceil>v * 32767\<rceil>"
    using pcm_sample_int [OF assms] by blast
  have x: "- 32767 \<le> v * 32767" "v * 32767 \<le> 32767" using assms by (simp_all add: abs_le_iff)
  then have "- 32767 \<le> \<lfloor>v * 32767\<rfloor>" "\<lceil>v * 32767\<rceil> \<le> 32767"
    by (simp_all add: le_floor_iff ceiling_le_iff)
  then have "sint (word_of_int n :: 16 word) = n" using n(2,3) by (intro sint_of_int16) linarith+
  then have s: "sample_to_float (pcm_sample v) = real_of_int n / 32768"
    by (simp add: sample_to_float_exact n(1))
  have "v * 32767 - 1 < of_int \<lfloor>v * 32767\<rfloor>" "of_int \<lceil>v * 32767\<rceil> < v * 32767 + 1" by linarith+
  then have "v * 32767 - 1 < real_of_int n" "real_of_int n < v * 32767 + 1"
    using n(2,3) by linarith+
  then have "\<bar>real_of_int n - 32768 * v\<bar> < 1 + \<bar>v\<bar>" by linarith
  then have "\<bar>(real_of_int n - 32768 * v) / 32768\<bar> < (1 + \<bar>v\<bar>) / 32768"
    by (simp add: divide_strict_right_mono)
  moreover have "(real_of_int n - 32768 * v) / 32768 = real_of_int n / 32768 - v"
    by (simp add: field_simps)
  ultimately show ?thesis unfolding s by simp
qed

lemma int16_view_pcm: "int16_view (pcm16_bytes frame) = map pcm_sample frame"
proof (induction frame)
  case Nil
  then show ?case by (simp add: pcm16_bytes_def)
next
  case (Cons v vs)
  have "int16_of (ucast (pcm_sample v)) (ucast (drop_bit 8 (pcm_sample v))) = pcm_sample v"
    using int16_of_bytes [of "pcm_sample v"] by (simp add: int16_bytes_def)
  then show ?case using Cons by (simp add: pcm16_bytes_def int16_bytes_def)
qed

lemma length_pcm16: "length (pcm16_bytes frame) = 2 * length frame"
  by (induction frame) (simp_all add: pcm16_bytes_def int16_bytes_def)

lemma decodePCM_pcm16:
  assumes "frame \<noteq> []"
  shows "decodePCM (pcm16_bytes frame) sampleRate 1 =
           Inr \<lparr>ab_length = length frame, ab_sampleRate = sampleRate,
                ab_channels = [map (\<lambda>v. sample_to_float (pcm_sample v)) frame]\<rparr>"
proof -
  have "map (\<lambda>i. sample_to_float (map pcm_sample frame ! i)) [0..<length frame]
          = map (\<lambda>v. sample_to_float (pcm_sample v)) frame"
    by (rule nth_equalityI) simp_all
  then show ?thesis
    using assms by (simp add: decodePCM_def length_pcm16 int16_view_pcm Let_def)
qed

lemma pcm_sample_example: "pcm_sample (65535 / 65536) = word_of_int 32766"
proof -
  define x :: real where "x = 65535 / 65536 * 32767"
  have xi: "x = real_of_int 2147385345 / 2 ^ 16" by (simp add: x_def)
  have ax: "\<bar>x\<bar> < 2 ^ 15" by (simp add: x_def)
  have "\<bar>real_of_int 2147385345 / 2 ^ 16\<bar> < (2::real) ^ 15" by simp
  then have "fp_round 53 1023 (real_of_int 2147385345 / 2 ^ 16) = real_of_int 2147385345 / 2 ^ 16"
    by (intro fp_round_exact [where k = 15]; simp)
  then have d: "fp_round 53 1023 x = x" by (simp only: xi)
  define f where "f = fp_round 24 127 x"
  have lo: "real_of_int 32766 / 2 ^ 0 \<le> f"
    unfolding f_def using ax by (intro fp_round_ge [where k = 15]) (simp_all add: x_def)
  have hi: "f \<le> real_of_int 131067 / 2 ^ 2"
    unfolding f_def using ax by (intro fp_round_le [where k = 15]) (simp_all add: x_def)
  have "32766 \<le> f" "f < 32767" using lo hi by simp_all
  then have t: "js_trunc f = 32766" by (simp add: js_trunc_def floor_eq_iff)
  have "\<bar>f\<bar> < 2 ^ 15" using \<open>32766 \<le> f\<close> \<open>f < 32767\<close> by (simp add: abs_less_iff)
  then have "\<not> fp_overflow 127 f" by (intro no_overflow_small) simp_all
  moreover have "\<not> fp_overflow 1023 x" using ax by (intro no_overflow_small) simp_all
  ultimately show ?thesis
    unfolding pcm_sample_def Let_def x_def [symmetric] d f_def [symmetric] t by simp
qed

text \<open>
  Claim C4, as amended. For every non-empty capture frame whose samples all lie within
  \<open>[-1, 1]\<close>, \<^verbatim>\<open>decodePCM\<close> of the encoded PCM16 buffer succeeds with one channel of the
  same length, and every decoded sample is within two quantization steps of the
  original: the distance is strictly below \<open>2 / 32768\<close>. (The sample is scaled by
  32767, cut to its integer part, and divided by 32768.)
\<close>

theorem pcm16_roundtrip_two_steps:
  assumes "frame \<noteq> []" "\<forall>v \<in> set frame. \<bar>v\<bar> \<le> 1"
  shows "\<exists>b ys. decodePCM (pcm16_bytes frame) sampleRate 1 = Inr b \<and> ab_channels b = [ys] \<and>
           length ys = length frame \<and>
           (\<forall>i < length frame. \<bar>ys ! i - frame ! i\<bar> < 2 / 32768)"
proof -
  let ?ys = "map (\<lambda>v. sample_to_float (pcm_sample v)) frame"
  have "\<bar>?ys ! i - frame ! i\<bar> < 2 / 32768" if "i < length frame" for i
  proof -
    have v: "\<bar>frame ! i\<bar> \<le> 1" using assms(2) that by simp
    have "\<bar>sample_to_float (pcm_sample (frame ! i)) - frame ! i\<bar> < (1 + \<bar>frame ! i\<bar>) / 32768"
      using v by (rule sample_roundtrip)
    also have "\<dots> \<le> 2 / 32768" using v by simp
    finally show ?thesis using that by simp
  qed
  then show ?thesis using decodePCM_pcm16 [OF assms(1), of sampleRate] by simp
qed

text \<open>
  The bound of one quantization step fails: the sample \<open>65535 / 65536\<close> is encoded as
  32766 and decoded as \<open>32766 / 32768\<close>, which is \<open>3 / 65536\<close> away.
\<close>

theorem pcm16_roundtrip_counterexample:
  "decodePCM (pcm16_bytes [65535 / 65536]) 24000 1 =
     Inr \<lparr>ab_length = 1, ab_sampleRate = 24000, ab_channels = [[32766 / 32768]]\<rparr> \<and>
   \<bar>65535 / 65536 :: real\<bar> \<le> 1 \<and>
   \<not> \<bar>32766 / 32768 - 65535 / 65536 :: real\<bar> \<le> 1 / 32768"
proof -
  have "sint (word_of_int 32766 :: 16 word) = 32766" by (intro sint_of_int16) simp_all
  then have "sample_to_float (pcm_sample (65535 / 65536)) = 32766 / 32768"
    by (simp add: pcm_sample_example sample_to_float_exact)
  then show ?thesis using decodePCM_pcm16 [of "[65535 / 65536]" 24000] by simp
qed

theorem pcm16_roundtrip_witness:
  "\<exists>b ys. decodePCM (pcm16_bytes [1 / 2, - 1]) 16000 1 = Inr b \<and> ab_channels b = [ys] \<and>
      length ys = length [1 / 2, - 1 :: real] \<and>
      (\<forall>i < length [1 / 2, - 1 :: real]. \<bar>ys ! i - [1 / 2, - 1] ! i\<bar> < 2 / 32768)"
  using pcm16_roundtrip_two_steps [of "[1 / 2, - 1]" 16000] by simp

section \<open>Language tags\<close>



text \<open>
  Claim C10. A transcript delta that does not begin with an opening square bracket, two
  uppercase ASCII letters and a closing square bracket is returned unchanged by
  \<^verbatim>\<open>parseLang\<close>, which leaves the detected language as it was; the whole delta is
  appended to the transcript.
\<close>

theorem parseLang_untagged:
  assumes "\<not> (\<exists>a b rest. text = 0x5B # a # b # 0x5D # rest \<and> is_upper_AZ a \<and> is_upper_AZ b)"
  shows "parseLang text lang = (lang, text) \<and>
         on_input_transcription text w = w\<lparr>inputTranscript := inputTranscript w @ text\<rparr> \<and>
         on_output_transcription text w = w\<lparr>outputTranscript := outputTranscript w @ text\<rparr>"
proof -
  have "match_lang_tag text = None"
  proof (cases "text" rule: match_lang_tag.cases)
    case (1 c0 c1 c2 c3 rest)
    then show ?thesis using assms by auto
  qed simp_all
  then have "parseLang text l = (l, text)" for l by (simp add: parseLang_def)
  then show ?thesis by (simp add: on_input_transcription_def on_output_transcription_def)
qed

text \<open>Lowercase tags, three-letter tags and tags not at the very start stay in the text.\<close>

theorem parseLang_untagged_witness:
  "parseLang (js_str ''[fr] salut'') (js_str ''EN'') = (js_str ''EN'', js_str ''[fr] salut'') \<and>
   parseLang (js_str ''[FRA] salut'') (js_str ''EN'') = (js_str ''EN'', js_str ''[FRA] salut'') \<and>
   parseLang (js_str '' [FR] salut'') (js_str ''EN'') = (js_str ''EN'', js_str '' [FR] salut'')"
proof -
  have 1: "\<not> (\<exists>a b rest. js_str ''[fr] salut'' = 0x5B # a # b # 0x5D # rest \<and> is_upper_AZ a \<and> is_upper_AZ b)"
    by (simp add: js_str_def is_upper_AZ_def)
  have 2: "\<not> (\<exists>a b rest. js_str ''[FRA] salut'' = 0x5B # a # b # 0x5D # rest \<and> is_upper_AZ a \<and> is_upper_AZ b)"
    by (simp add: js_str_def is_upper_AZ_def)
  have 3: "\<not> (\<exists>a b rest. js_str '' [FR] salut'' = 0x5B # a # b # 0x5D # rest \<and> is_upper_AZ a \<and> is_upper_AZ b)"
    by (simp add: js_str_def is_upper_AZ_def)
  show ?thesis
    using parseLang_untagged [OF 1, of "js_str ''EN''" initial] parseLang_untagged [OF 2, of "js_str ''EN''" initial]
      parseLang_untagged [OF 3, of "js_str ''EN''" initial] by simp
qed

section \<open>The interruption handler\<close>

lemma length_stop_sources [simp]: "length (nodes (stop_sources w)) = length (nodes w)"
  by (simp add: stop_sources_def)

lemma nth_stop_sources:
  "i < length (nodes w) \<Longrightarrow>
     nodes (stop_sources w) ! i =
       (if i \<in> sources w then (nodes w ! i)\<lparr>stopped := True\<rparr> else nodes w ! i)"
  by (simp add: stop_sources_def)

lemma on_transcripts_fields [simp]:
  "nodes (on_transcripts m w) = nodes w"
  "sources (on_transcripts m w) = sources w"
  "nextStartTime (on_transcripts m w) = nextStartTime w"
  "status (on_transcripts m w) = status w"
  "activeSessionId (on_transcripts m w) = activeSessionId w"
  "canvasRef (on_transcripts m w) = canvasRef w"
  "captures (on_transcripts m w) = captures w"
  by (simp_all add: on_transcripts_def on_input_transcription_def on_output_transcription_def
      Let_def split: option.splits prod.splits)

lemma on_audio_Inr:
  assumes "on_audio now b w = Inr w2"
  shows "\<exists>d. nodes w2 = nodes w @ [\<lparr>start_at = max (nextStartTime w) now, buf_duration = d,
                                     created_at = now, stopped = False\<rparr>] \<and>
             sources w2 = insert (length (nodes w)) (sources w) \<and>
             nextStartTime w2 = max (nextStartTime w) now + d \<and> status w2 = Speaking"
  using assms by (auto simp: on_audio_def Let_def split: sum.splits)


lemma on_interrupted_fields [simp]:
  "sources (on_interrupted w) = {}"
  "nextStartTime (on_interrupted w) = 0"
  "status (on_interrupted w) = Listening"
  "length (nodes (on_interrupted w)) = length (nodes w)"
  by (simp_all add: on_interrupted_def stop_sources_def)

lemma nth_on_interrupted:
  "i < length (nodes w) \<Longrightarrow>
     nodes (on_interrupted w) ! i =
       (if i \<in> sources w then (nodes w ! i)\<lparr>stopped := True\<rparr> else nodes w ! i)"
  by (simp add: on_interrupted_def stop_sources_def)

lemma interrupted_flush:
  assumes "\<forall>i < length (nodes w). i \<notin> sources w \<longrightarrow>
             stopped (nodes w ! i) \<or> start_at (nodes w ! i) + buf_duration (nodes w ! i) \<le> now"
  shows "\<forall>n \<in> set (nodes (on_interrupted w)). stopped n \<or> start_at n + buf_duration n \<le> now"
proof
  fix n assume "n \<in> set (nodes (on_interrupted w))"
  then obtain i where i: "i < length (nodes w)" "n = nodes (on_interrupted w) ! i"
    by (auto simp: in_set_conv_nth)
  show "stopped n \<or> start_at n + buf_duration n \<le> now"
  proof (cases "i \<in> sources w")
    case True
    then show ?thesis using i by (simp add: nth_on_interrupted)
  next
    case False
    then show ?thesis using i assms by (simp add: nth_on_interrupted)
  qed
qed

text \<open>
  Claim C2, as amended. When a message of the current session carries the interruption
  signal and the handler reaches it (the audio of the same message, if any, decodes),
  in any state: every handle of the Active Source Set is stopped, the set becomes empty,
  the playback cursor is reset to 0, so that the next chunk starts at the clock reading
  at which it is handled, and the status becomes \<open>Listening\<close>. If every source outside the
  set had been stopped or had finished by then, every source is afterwards stopped or
  finished: nothing scheduled earlier plays after the interruption.
\<close>

theorem interruption_flushes_playback:
  assumes "\<not> stale c w" "interrupted m" "onmessage c now m w = Inr w'"
  shows "sources w' = {} \<and> nextStartTime w' = 0 \<and> status w' = Listening \<and>
         (\<forall>i \<in> sources w. i < length (nodes w) \<longrightarrow> stopped (nodes w' ! i)) \<and>
         (\<forall>t \<ge> 0. max (nextStartTime w') t = t) \<and>
         ((\<forall>i < length (nodes w). i \<notin> sources w \<longrightarrow>
             stopped (nodes w ! i) \<or> start_at (nodes w ! i) + buf_duration (nodes w ! i) \<le> now) \<longrightarrow>
          (\<forall>n \<in> set (nodes w'). stopped n \<or> start_at n + buf_duration n \<le> now))"
proof -
  define w1 where "w1 = on_transcripts m w"
  obtain w2 where w2: "w' = on_interrupted w2"
    and cases: "(has_audio m \<and> on_audio now (the (audioBase64 m)) w1 = Inr w2) \<or>
                (\<not> has_audio m \<and> w2 = w1)"
    using assms(1-3) by (auto simp: onmessage_def Let_def w1_def split: sum.splits if_splits)
  have ext: "\<exists>extra. nodes w2 = nodes w @ extra" "sources w \<subseteq> sources w2"
    "\<forall>i < length (nodes w2). i \<notin> sources w2 \<longrightarrow> i < length (nodes w)"
  proof -
    show "\<exists>extra. nodes w2 = nodes w @ extra"
    proof (cases "has_audio m")
      case True
      then have "on_audio now (the (audioBase64 m)) w1 = Inr w2" using cases by simp
      from on_audio_Inr [OF this] obtain d where
        "nodes w2 = nodes w1 @ [\<lparr>start_at = max (nextStartTime w1) now, buf_duration = d,
                                     created_at = now, stopped = False\<rparr>]" by blast
      then show ?thesis by (simp add: w1_def)
    next
      case False
      then show ?thesis using cases by (simp add: w1_def)
    qed
    show "sources w \<subseteq> sources w2"
    proof (cases "has_audio m")
      case True
      then have "on_audio now (the (audioBase64 m)) w1 = Inr w2" using cases by simp
      from on_audio_Inr [OF this] have "sources w2 = insert (length (nodes w1)) (sources w1)"
        by blast
      then show ?thesis by (simp add: w1_def subset_insertI)
    next
      case False
      then show ?thesis using cases by (simp add: w1_def)
    qed
    show "\<forall>i < length (nodes w2). i \<notin> sources w2 \<longrightarrow> i < length (nodes w)"
    proof (cases "has_audio m")
      case True
      then have "on_audio now (the (audioBase64 m)) w1 = Inr w2" using cases by simp
      from on_audio_Inr [OF this] obtain d where
        n: "nodes w2 = nodes w1 @ [\<lparr>start_at = max (nextStartTime w1) now, buf_duration = d,
                                     created_at = now, stopped = False\<rparr>]"
        and s: "sources w2 = insert (length (nodes w1)) (sources w1)" by blast
      have "length (nodes w2) = Suc (length (nodes w))" using n by (simp add: w1_def)
      moreover have "length (nodes w) \<in> sources w2" using s by (simp add: w1_def)
      ultimately show ?thesis by (metis less_Suc_eq)
    next
      case False
      then show ?thesis using cases by (simp add: w1_def)
    qed
  qed
  then obtain extra where extra: "nodes w2 = nodes w @ extra" by blast
  have flushed: "\<forall>n \<in> set (nodes w'). stopped n \<or> start_at n + buf_duration n \<le> now"
    if tr: "\<forall>i < length (nodes w). i \<notin> sources w \<longrightarrow>
           stopped (nodes w ! i) \<or> start_at (nodes w ! i) + buf_duration (nodes w ! i) \<le> now"
  proof -
    have "\<forall>i < length (nodes w2). i \<notin> sources w2 \<longrightarrow>
        stopped (nodes w2 ! i) \<or> start_at (nodes w2 ! i) + buf_duration (nodes w2 ! i) \<le> now"
    proof (intro allI impI)
      fix i assume i: "i < length (nodes w2)" "i \<notin> sources w2"
      then have "i < length (nodes w)" "i \<notin> sources w" using ext(2,3) by auto
      then show "stopped (nodes w2 ! i) \<or> start_at (nodes w2 ! i) + buf_duration (nodes w2 ! i) \<le> now"
        using tr extra by (simp add: nth_append)
    qed
    then show ?thesis unfolding w2 by (rule interrupted_flush)
  qed
  have stopped: "\<forall>i \<in> sources w. i < length (nodes w) \<longrightarrow> stopped (nodes w' ! i)"
  proof (intro ballI impI)
    fix i assume i: "i \<in> sources w" "i < length (nodes w)"
    then have "i < length (nodes w2)" "i \<in> sources w2" using extra ext(2) by auto
    then show "stopped (nodes w' ! i)" by (simp add: w2 nth_on_interrupted)
  qed
  show ?thesis
    using flushed stopped by (simp add: w2)
qed

subsection \<open>Example traces\<close>

lemma live_state:
  "run demo_connect initial =
     initial\<lparr>status := Listening, isConnected := True, ctx_input := Some 1, ctx_output := Some 2,
             activeSessionId := Some ''session-1'', mediaStream := Some 3\<rparr>"
  by (simp add: run_def demo_connect_def demo_closure_def initial_def settle_def connect_begin_def
      cleanup_def close_contexts_def stop_sources_def stop_media_tracks_def
      clear_frame_interval_def connect_media_def stale_def onopen_def)

lemma silence_bytes: "decodeBase64 (js_str ''AAAAAA=='') = Inr [0, 0, 0, 0]"
  unfolding decodeBase64_def atob_def
  by (simp add: js_str_def is_ascii_whitespace_def strip_padding_def pad_char_def b64_index_def)

lemma silence_buffer:
  "decodePCM [0, 0, 0, 0] 24000 1 =
     Inr \<lparr>ab_length = 2, ab_sampleRate = 24000, ab_channels = [[0, 0]]\<rparr>"
proof -
  have u: "[0..<2] = [0, 1]" by (simp add: upt_conv_Cons)
  have s: "sample_to_float 0 = 0" by (simp add: sample_to_float_def fp_round_def)
  show ?thesis unfolding decodePCM_def by (simp add: int16_of_def u s)
qed

lemma on_audio_silence:
  "on_audio now (js_str ''AAAAAA=='') w =
     Inr (w\<lparr>status := Speaking,
            nodes := nodes w @ [\<lparr>start_at = max (nextStartTime w) now, buf_duration = 1 / 12000,
                                 created_at = now, stopped = False\<rparr>],
            nextStartTime := max (nextStartTime w) now + 1 / 12000,
            sources := insert (length (nodes w)) (sources w)\<rparr>)"
  by (simp add: on_audio_def silence_bytes silence_buffer duration_def Let_def del: One_nat_def)

lemma message_silence:
  "\<not> stale c w \<Longrightarrow>
   step (Message c now silence) w =
     w\<lparr>status := Speaking,
       nodes := nodes w @ [\<lparr>start_at = max (nextStartTime w) now, buf_duration = 1 / 12000,
                            created_at = now, stopped = False\<rparr>],
       nextStartTime := max (nextStartTime w) now + 1 / 12000,
       sources := insert (length (nodes w)) (sources w)\<rparr>"
proof -
  have h: "has_audio silence" "the (audioBase64 silence) = js_str ''AAAAAA==''"
    "\<not> interrupted silence"
    by (simp_all add: silence_def has_audio_def js_str_def)
  have t: "on_transcripts silence w = w" by (simp add: on_transcripts_def silence_def)
  assume "\<not> stale c w"
  then show ?thesis
    by (simp add: onmessage_def h t Let_def on_audio_silence settle_def)
qed

lemma run_snoc: "run (evs @ [e]) w = step e (run evs w)"
  by (simp add: run_def)

lemma run_append: "run (evs @ evs') w = run evs' (run evs w)"
  by (simp add: run_def)

lemma playing_state:
  "run demo_playing initial =
     initial\<lparr>status := Speaking, isConnected := True, ctx_input := Some 1, ctx_output := Some 2,
             activeSessionId := Some ''session-1'', mediaStream := Some 3,
             nodes := [\<lparr>start_at = 2, buf_duration = 1 / 12000, created_at = 2, stopped = False\<rparr>,
                       \<lparr>start_at = 4, buf_duration = 1 / 12000, created_at = 4, stopped = False\<rparr>],
             nextStartTime := 4 + 1 / 12000, sources := {1}\<rparr>"
proof -
  have s: "\<not> stale demo_closure (run demo_connect initial)"
    unfolding live_state by (simp add: stale_def demo_closure_def initial_def)
  have 1: "run (demo_connect @ [Message demo_closure 2 silence]) initial =
     initial\<lparr>status := Speaking, isConnected := True, ctx_input := Some 1, ctx_output := Some 2,
             activeSessionId := Some ''session-1'', mediaStream := Some 3,
             nodes := [\<lparr>start_at = 2, buf_duration = 1 / 12000, created_at = 2, stopped = False\<rparr>],
             nextStartTime := 2 + 1 / 12000, sources := {0}\<rparr>"
    unfolding run_snoc message_silence [OF s] unfolding live_state by (simp add: initial_def)
  have s2: "\<not> stale demo_closure (run (demo_connect @ [Message demo_closure 2 silence]) initial)"
    unfolding 1 by (simp add: stale_def demo_closure_def initial_def)
  have 2: "run (demo_connect @ [Message demo_closure 2 silence] @ [Message demo_closure 4 silence]) initial =
     initial\<lparr>status := Speaking, isConnected := True, ctx_input := Some 1, ctx_output := Some 2,
             activeSessionId := Some ''session-1'', mediaStream := Some 3,
             nodes := [\<lparr>start_at = 2, buf_duration = 1 / 12000, created_at = 2, stopped = False\<rparr>,
                       \<lparr>start_at = 4, buf_duration = 1 / 12000, created_at = 4, stopped = False\<rparr>],
             nextStartTime := 4 + 1 / 12000, sources := {0, 1}\<rparr>"
    unfolding append_assoc [symmetric] run_snoc [of "demo_connect @ [Message demo_closure 2 silence]"]
      message_silence [OF s2] unfolding 1 by (simp add: initial_def insert_commute)
  have d: "demo_playing = (demo_connect @ [Message demo_closure 2 silence] @ [Message demo_closure 4 silence]) @ [SourceEnded demo_closure 0]"
    by (simp add: demo_playing_def)
  show ?thesis
    unfolding d run_snoc 2
    by (simp add: source_onended_def initial_def Let_def)
qed

lemma playing_not_stale: "\<not> stale demo_closure (run demo_playing initial)"
  unfolding playing_state by (simp add: stale_def demo_closure_def initial_def)

text \<open>
  The cursor is not set to the clock reading of the interruption: an interruption
  handled at clock 5 leaves it at 0.
\<close>

theorem interruption_cursor_counterexample:
  "\<not> stale demo_closure (run demo_playing initial) \<and> interrupted interruption \<and>
   \<not> isl (onmessage demo_closure 5 interruption (run demo_playing initial)) \<and>
   nextStartTime (settle (onmessage demo_closure 5 interruption (run demo_playing initial))) \<noteq> 5"
  using playing_not_stale
  by (simp add: onmessage_def interruption_def has_audio_def on_transcripts_def settle_def)

theorem interruption_flushes_playback_witness:
  "\<not> stale demo_closure (run demo_playing initial) \<and> interrupted interruption \<and>
   onmessage demo_closure 5 interruption (run demo_playing initial) =
     Inr (on_interrupted (run demo_playing initial)) \<and>
   sources (on_interrupted (run demo_playing initial)) = {} \<and>
   nextStartTime (on_interrupted (run demo_playing initial)) = 0 \<and>
   status (on_interrupted (run demo_playing initial)) = Listening \<and>
   stopped (nodes (on_interrupted (run demo_playing initial)) ! 1) \<and>
   list_all (\<lambda>n. stopped n \<or> start_at n + buf_duration n \<le> 5)
     (nodes (on_interrupted (run demo_playing initial)))"
proof -
  have m: "onmessage demo_closure 5 interruption (run demo_playing initial) =
     Inr (on_interrupted (run demo_playing initial))"
    using playing_not_stale
    by (simp add: onmessage_def interruption_def has_audio_def on_transcripts_def)
  have i: "interrupted interruption" by (simp add: interruption_def)
  have t: "\<forall>i < length (nodes (run demo_playing initial)). i \<notin> sources (run demo_playing initial) \<longrightarrow>
      stopped (nodes (run demo_playing initial) ! i) \<or>
      start_at (nodes (run demo_playing initial) ! i) +
        buf_duration (nodes (run demo_playing initial) ! i) \<le> 5"
    unfolding playing_state by (simp add: initial_def less_Suc_eq numeral_2_eq_2)
  have s: "1 \<in> sources (run demo_playing initial)" "1 < length (nodes (run demo_playing initial))"
    unfolding playing_state by (simp_all add: initial_def)
  show ?thesis
    using interruption_flushes_playback [OF playing_not_stale i m] playing_not_stale i m t s
    unfolding list_all_iff by blast
qed

section \<open>Fields a step leaves alone; the frame sampler\<close>

lemma schedule_stop_sources [simp]: "schedule (stop_sources w) = schedule w"
  unfolding schedule_def by (rule nth_equalityI) (simp_all add: nth_stop_sources)

lemma stop_sources_fields [simp]:
  "status (stop_sources w) = status w"
  "nextStartTime (stop_sources w) = nextStartTime w"
  "canvasRef (stop_sources w) = canvasRef w"
  "captures (stop_sources w) = captures w"
  "activeSessionId (stop_sources w) = activeSessionId w"
  by (simp_all add: stop_sources_def)

lemma release_fields [simp]:
  "status (stop_media_tracks w) = status w"
  "nextStartTime (stop_media_tracks w) = nextStartTime w"
  "canvasRef (stop_media_tracks w) = canvasRef w"
  "captures (stop_media_tracks w) = captures w"
  "schedule (stop_media_tracks w) = schedule w"
  "status (clear_frame_interval w) = status w"
  "nextStartTime (clear_frame_interval w) = nextStartTime w"
  "canvasRef (clear_frame_interval w) = canvasRef w"
  "captures (clear_frame_interval w) = captures w"
  "schedule (clear_frame_interval w) = schedule w"
  by (simp_all add: stop_media_tracks_def clear_frame_interval_def schedule_def split: option.splits)

lemma close_context_fields:
  "status (settle (close_context x w)) = status w"
  "nextStartTime (settle (close_context x w)) = nextStartTime w"
  "canvasRef (settle (close_context x w)) = canvasRef w"
  "captures (settle (close_context x w)) = captures w"
  "schedule (settle (close_context x w)) = schedule w"
  "ctx_output (settle (close_context x w)) = ctx_output w"
  by (simp_all add: close_context_def settle_def schedule_def)

lemma settle_simps [simp]: "settle (Inr w) = w" "settle (Inl (err, w)) = w"
  by (simp_all add: settle_def)

lemma close_contexts_fields:
  "status (settle (close_contexts w)) = status w \<and>
   nextStartTime (settle (close_contexts w)) = nextStartTime w \<and>
   canvasRef (settle (close_contexts w)) = canvasRef w \<and>
   captures (settle (close_contexts w)) = captures w \<and>
   schedule (settle (close_contexts w)) = schedule w"
proof -
  define r1 where "r1 = (case ctx_input w of None \<Rightarrow> Inr w | Some x \<Rightarrow> close_context x w)"
  have f1: "status (settle r1) = status w \<and> nextStartTime (settle r1) = nextStartTime w \<and>
      canvasRef (settle r1) = canvasRef w \<and> captures (settle r1) = captures w \<and>
      schedule (settle r1) = schedule w"
    by (simp add: r1_def close_context_fields split: option.splits)
  show ?thesis
  proof (cases r1)
    case (Inl a)
    then have "close_contexts w = Inl a" by (simp add: close_contexts_def r1_def)
    then show ?thesis using f1 Inl by simp
  next
    case (Inr w1)
    then have c: "close_contexts w = (case ctx_output w1 of None \<Rightarrow> Inr w1 | Some x \<Rightarrow> close_context x w1)"
      by (simp add: close_contexts_def r1_def)
    have "status (settle (close_contexts w)) = status w1 \<and>
      nextStartTime (settle (close_contexts w)) = nextStartTime w1 \<and>
      canvasRef (settle (close_contexts w)) = canvasRef w1 \<and>
      captures (settle (close_contexts w)) = captures w1 \<and>
      schedule (settle (close_contexts w)) = schedule w1"
      unfolding c by (simp add: close_context_fields split: option.splits)
    then show ?thesis using f1 Inr by simp
  qed
qed

lemma cleanup_fields:
  "status (settle (cleanup w)) = status w \<and>
   nextStartTime (settle (cleanup w)) = nextStartTime w \<and>
   canvasRef (settle (cleanup w)) = canvasRef w \<and>
   captures (settle (cleanup w)) = captures w \<and>
   schedule (settle (cleanup w)) = schedule w"
proof -
  define u where "u = stop_sources (stop_media_tracks (clear_frame_interval (w\<lparr>activeSessionId := None\<rparr>)))"
  have u: "status u = status w" "nextStartTime u = nextStartTime w" "canvasRef u = canvasRef w"
    "captures u = captures w" "schedule u = schedule w"
    by (simp_all add: u_def) (simp add: schedule_def)
  show ?thesis
  proof (cases "close_contexts u")
    case (Inl a)
    then have "settle (cleanup w) = settle (close_contexts u)"
      by (simp add: cleanup_def u_def)
    then show ?thesis using close_contexts_fields [of u] u by simp
  next
    case (Inr w1)
    then have e: "settle (cleanup w) = w1\<lparr>ctx_input := None, ctx_output := None, isConnected := False\<rparr>"
      by (simp add: cleanup_def u_def)
    have "status w1 = status w" "nextStartTime w1 = nextStartTime w" "canvasRef w1 = canvasRef w"
      "captures w1 = captures w" "schedule w1 = schedule w"
      using close_contexts_fields [of u] u Inr by simp_all
    then show ?thesis unfolding e by (simp add: schedule_def)
  qed
qed

lemma await_close_fields:
  "status (state_of (await_close p x w)) = status w \<and>
   nextStartTime (state_of (await_close p x w)) = nextStartTime w \<and>
   canvasRef (state_of (await_close p x w)) = canvasRef w \<and>
   captures (state_of (await_close p x w)) = captures w \<and>
   schedule (state_of (await_close p x w)) = schedule w"
  by (simp add: await_close_def close_context_def schedule_def)

lemma cleanup_output_fields:
  "status (state_of (cleanup_output w)) = status w \<and>
   nextStartTime (state_of (cleanup_output w)) = nextStartTime w \<and>
   canvasRef (state_of (cleanup_output w)) = canvasRef w \<and>
   captures (state_of (cleanup_output w)) = captures w \<and>
   schedule (state_of (cleanup_output w)) = schedule w"
proof (cases "ctx_output w")
  case None
  then show ?thesis by (simp add: cleanup_output_def cleanup_end_def schedule_def)
next
  case (Some y)
  then show ?thesis using await_close_fields [of OutputClose y w] by (simp add: cleanup_output_def)
qed

lemma cleanup_begin_fields:
  "status (state_of (cleanup_begin w)) = status w \<and>
   nextStartTime (state_of (cleanup_begin w)) = nextStartTime w \<and>
   canvasRef (state_of (cleanup_begin w)) = canvasRef w \<and>
   captures (state_of (cleanup_begin w)) = captures w \<and>
   schedule (state_of (cleanup_begin w)) = schedule w"
proof -
  define u where "u = stop_sources (stop_media_tracks (clear_frame_interval (w\<lparr>activeSessionId := None\<rparr>)))"
  have u: "status u = status w" "nextStartTime u = nextStartTime w" "canvasRef u = canvasRef w"
    "captures u = captures w" "schedule u = schedule w"
    by (simp_all add: u_def) (simp add: schedule_def)
  have b: "cleanup_begin w =
      (case ctx_input u of None \<Rightarrow> cleanup_output u | Some x \<Rightarrow> await_close InputClose x u)"
    unfolding cleanup_begin_def Let_def u_def by (rule refl)
  show ?thesis
  proof (cases "ctx_input u")
    case None
    then show ?thesis using cleanup_output_fields [of u] u by (simp add: b)
  next
    case (Some x)
    then show ?thesis using await_close_fields [of InputClose x u] u by (simp add: b)
  qed
qed

lemma cleanup_resume_fields:
  "status (state_of (cleanup_resume p r w)) = status w \<and>
   nextStartTime (state_of (cleanup_resume p r w)) = nextStartTime w \<and>
   canvasRef (state_of (cleanup_resume p r w)) = canvasRef w \<and>
   captures (state_of (cleanup_resume p r w)) = captures w \<and>
   schedule (state_of (cleanup_resume p r w)) = schedule w"
proof (cases r)
  case (Some err)
  then show ?thesis by (simp add: cleanup_resume_def)
next
  case None
  then show ?thesis
    using cleanup_output_fields [of w]
    by (cases p) (simp_all add: cleanup_resume_def cleanup_end_def schedule_def)
qed

lemma connect_begin_fields:
  "nextStartTime (settle (connect_begin c ctxs w)) = nextStartTime w \<and>
   canvasRef (settle (connect_begin c ctxs w)) = canvasRef w \<and>
   captures (settle (connect_begin c ctxs w)) = captures w \<and>
   schedule (settle (connect_begin c ctxs w)) = schedule w"
proof (cases "cleanup w")
  case (Inl a)
  then have "settle (connect_begin c ctxs w) = settle (cleanup w)"
    by (simp add: connect_begin_def)
  then show ?thesis using cleanup_fields [of w] by simp
next
  case (Inr w1)
  then have "nextStartTime w1 = nextStartTime w" "canvasRef w1 = canvasRef w"
    "captures w1 = captures w" "schedule w1 = schedule w"
    using cleanup_fields [of w] by simp_all
  then show ?thesis using Inr
    by (simp add: connect_begin_def Let_def schedule_def split: option.splits prod.splits)
qed

lemma on_audio_fields:
  "canvasRef (settle (on_audio now b w)) = canvasRef w"
  "captures (settle (on_audio now b w)) = captures w"
  "status (settle (on_audio now b w)) = Speaking"
  by (simp_all add: on_audio_def Let_def split: sum.splits)

lemma on_interrupted_frame [simp]:
  "canvasRef (on_interrupted w) = canvasRef w"
  "captures (on_interrupted w) = captures w"
  by (simp_all add: on_interrupted_def)

lemma message_step:
  "step (Message c now m) w =
     (if stale c w then w
      else if has_audio m
           then (case on_audio now (the (audioBase64 m)) (on_transcripts m w) of
                   Inl (err, w2) \<Rightarrow> w2
                 | Inr w2 \<Rightarrow> if interrupted m then on_interrupted w2 else w2)
           else if interrupted m then on_interrupted (on_transcripts m w)
                else on_transcripts m w)"
  by (simp add: onmessage_def Let_def split: sum.splits)

lemma canvasRef_step: "canvasRef (step e w) = canvasRef w"
proof (cases e)
  case (ConnectBegin c ctxs)
  then show ?thesis using connect_begin_fields [of c ctxs w] by simp
next
  case Cleanup
  then show ?thesis using cleanup_fields [of w] by simp
next
  case CleanupBegin
  then show ?thesis using cleanup_begin_fields [of w] by simp
next
  case (CleanupResume p r)
  then show ?thesis using cleanup_resume_fields [of p r w] by simp
next
  case (Message c now m)
  show ?thesis
    unfolding Message message_step
    using on_audio_fields(1) [of now "the (audioBase64 m)" "on_transcripts m w"]
    by (auto split: sum.splits)
qed (simp_all add: connect_media_def onopen_def onaudioprocess_def frame_tick_def blob_done_def
      source_onended_def onerror_def onclose_def Let_def split: option.splits sum.splits)

lemma captures_step: "canvasRef w = None \<Longrightarrow> captures (step e w) = captures w"
proof (cases e)
  case (ConnectBegin c ctxs)
  then show ?thesis using connect_begin_fields [of c ctxs w] by simp
next
  case Cleanup
  then show ?thesis using cleanup_fields [of w] by simp
next
  case CleanupBegin
  then show ?thesis using cleanup_begin_fields [of w] by simp
next
  case (CleanupResume p r)
  then show ?thesis using cleanup_resume_fields [of p r w] by simp
next
  case (Message c now m)
  show ?thesis
    unfolding Message message_step
    using on_audio_fields(2) [of now "the (audioBase64 m)" "on_transcripts m w"]
    by (auto split: sum.splits)
next
  case (FrameTick c v)
  assume "canvasRef w = None"
  then show ?thesis using FrameTick by (simp add: frame_tick_def)
qed (simp_all add: connect_media_def onopen_def onaudioprocess_def blob_done_def
      source_onended_def onerror_def onclose_def Let_def split: option.splits sum.splits)

lemma no_canvas: "canvasRef (run evs initial) = None \<and> captures (run evs initial) = []"
proof (induction evs rule: rev_induct)
  case Nil
  then show ?case by (simp add: run_def initial_def)
next
  case (snoc e evs)
  then show ?case by (simp add: run_snoc canvasRef_step captures_step)
qed

text \<open>
  Claim C7, on the code. No \<^verbatim>\<open>canvas\<close> element is given \<^verbatim>\<open>canvasRef\<close>, so the ref stays
  \<^verbatim>\<open>null\<close> in every state the component reaches. The timer callback of the frame sampler
  then returns at its guard: whatever the session, the mode and the video's
  \<^verbatim>\<open>readyState\<close>, a tick changes nothing, no capture is ever started and no frame is
  forwarded.
\<close>

theorem frame_sampler_never_captures:
  "canvasRef (run evs initial) = None \<and>
   frame_tick c video (run evs initial) = run evs initial \<and>
   captures (run (evs @ [FrameTick c video]) initial) = []"
  using no_canvas [of evs] no_canvas [of "evs @ [FrameTick c video]"]
  by (simp add: frame_tick_def)

section \<open>Teardown\<close>

lemma stop_sources_empty: "sources w = {} \<Longrightarrow> stop_sources w = w"
  by (simp add: stop_sources_def map_nth)

lemma cleanup_result:
  assumes "cleanup w = Inr w1"
  shows "activeSessionId w1 = None \<and> mediaStream w1 = None \<and> sources w1 = {} \<and>
         ctx_input w1 = None \<and> ctx_output w1 = None \<and> \<not> isConnected w1 \<and>
         (\<forall>t. frameInterval w1 = Some t \<longrightarrow> t \<noteq> 0 \<longrightarrow> t \<in> clearedIntervals w1)"
proof -
  define u where "u = stop_sources (stop_media_tracks (clear_frame_interval (w\<lparr>activeSessionId := None\<rparr>)))"
  have u: "activeSessionId u = None" "mediaStream u = None" "sources u = {}"
    "\<forall>t. frameInterval u = Some t \<longrightarrow> t \<noteq> 0 \<longrightarrow> t \<in> clearedIntervals u"
    by (auto simp: u_def stop_sources_def stop_media_tracks_def clear_frame_interval_def
        split: option.splits)
  obtain v where v: "close_contexts u = Inr v"
    and w1: "w1 = v\<lparr>ctx_input := None, ctx_output := None, isConnected := False\<rparr>"
    using assms by (auto simp: cleanup_def u_def split: sum.splits)
  have "activeSessionId v = activeSessionId u" "mediaStream v = mediaStream u"
    "sources v = sources u" "frameInterval v = frameInterval u"
    "clearedIntervals v = clearedIntervals u"
    using v by (auto simp: close_contexts_def close_context_def split: option.splits sum.splits if_splits)
  then show ?thesis using u by (simp add: w1)
qed

lemma cleanup_fixed:
  assumes "activeSessionId w = None" "mediaStream w = None" "sources w = {}"
    "ctx_input w = None" "ctx_output w = None" "\<not> isConnected w"
    "\<forall>t. frameInterval w = Some t \<longrightarrow> t \<noteq> 0 \<longrightarrow> t \<in> clearedIntervals w"
  shows "cleanup w = Inr w"
proof -
  have a: "w\<lparr>activeSessionId := None\<rparr> = w" using assms(1) by simp
  have b: "clear_frame_interval w = w"
    using assms(7) by (auto simp: clear_frame_interval_def split: option.splits simp: insert_absorb)
  have c: "stop_media_tracks w = w" using assms(2) by (simp add: stop_media_tracks_def)
  have d: "close_contexts w = Inr w" using assms(4,5) by (simp add: close_contexts_def)
  have e: "w\<lparr>ctx_input := None, ctx_output := None, isConnected := False\<rparr> = w"
    using assms(4-6) by simp
  show ?thesis
    unfolding cleanup_def a b c stop_sources_empty [OF assms(3)] d using e by simp
qed

lemma cleanup_no_contexts:
  assumes "ctx_input w = None" "ctx_output w = None"
  shows "\<exists>w2. cleanup w = Inr w2"
proof -
  define u where "u = stop_sources (stop_media_tracks (clear_frame_interval (w\<lparr>activeSessionId := None\<rparr>)))"
  have "ctx_input u = None" "ctx_output u = None"
    using assms
    by (simp_all add: u_def stop_sources_def stop_media_tracks_def clear_frame_interval_def
        split: option.splits)
  then have "close_contexts u = Inr u" by (simp add: close_contexts_def)
  then show ?thesis by (simp add: cleanup_def u_def [symmetric])
qed

lemma cleanup_returns:
  assumes "ctx_input w = Some x" "ctx_output w = Some y" "x \<noteq> y"
    "x \<notin> closedContexts w" "y \<notin> closedContexts w"
  shows "\<exists>w1. cleanup w = Inr w1"
proof -
  define u where "u = stop_sources (stop_media_tracks (clear_frame_interval (w\<lparr>activeSessionId := None\<rparr>)))"
  have u: "ctx_input u = ctx_input w" "ctx_output u = ctx_output w"
    "closedContexts u = closedContexts w"
    by (simp_all add: u_def stop_sources_def stop_media_tracks_def clear_frame_interval_def
        split: option.splits)
  have "\<exists>v. close_contexts u = Inr v"
    using assms u by (simp add: close_contexts_def close_context_def)
  then obtain v where v: "close_contexts u = Inr v" by blast
  have "cleanup w = Inr (v\<lparr>ctx_input := None, ctx_output := None, isConnected := False\<rparr>)"
    by (simp add: cleanup_def u_def [symmetric] v)
  then show ?thesis by blast
qed

lemma cleanup_uninterrupted:
  "resume (resume (cleanup_begin w)) =
     (case cleanup w of Inl (err, w1) \<Rightarrow> Rejected err w1 | Inr w1 \<Rightarrow> Returned w1)"
proof -
  define u where "u = stop_sources (stop_media_tracks (clear_frame_interval (w\<lparr>activeSessionId := None\<rparr>)))"
  have b: "cleanup_begin w =
      (case ctx_input u of None \<Rightarrow> cleanup_output u | Some x \<Rightarrow> await_close InputClose x u)"
    unfolding cleanup_begin_def Let_def u_def by (rule refl)
  have c: "cleanup w =
      (case close_contexts u of
         Inl err \<Rightarrow> Inl err
       | Inr w1 \<Rightarrow> Inr (w1\<lparr>ctx_input := None, ctx_output := None, isConnected := False\<rparr>))"
    by (simp add: cleanup_def u_def)
  have o: "resume (cleanup_output v) =
      (case (case ctx_output v of None \<Rightarrow> Inr v | Some y \<Rightarrow> close_context y v) of
         Inl (err, w1) \<Rightarrow> Rejected err w1
       | Inr w1 \<Rightarrow> Returned (w1\<lparr>ctx_input := None, ctx_output := None, isConnected := False\<rparr>))" for v
    by (simp add: cleanup_output_def await_close_def close_context_def cleanup_resume_def
        cleanup_end_def split: option.splits)
  show ?thesis
  proof (cases "ctx_input u")
    case None
    have "resume (resume (cleanup_begin w)) = resume (cleanup_output u)"
    proof (cases "cleanup_output u")
      case (Suspended p r v)
      then show ?thesis using None by (simp add: b cleanup_output_def cleanup_resume_def
            await_close_def close_context_def cleanup_end_def split: option.splits if_splits)
    qed (simp_all add: b None)
    then show ?thesis unfolding c o by (simp add: close_contexts_def None split: sum.splits)
  next
    case (Some x)
    show ?thesis
    proof (cases "x \<in> closedContexts u")
      case True
      then show ?thesis unfolding c
        by (simp add: b Some await_close_def close_context_def cleanup_resume_def close_contexts_def)
    next
      case False
      define v where "v = u\<lparr>closedContexts := insert x (closedContexts u)\<rparr>"
      have "resume (resume (cleanup_begin w)) = resume (cleanup_output v)"
        using False by (simp add: b Some await_close_def close_context_def cleanup_resume_def v_def)
      moreover have "close_contexts u =
          (case ctx_output v of None \<Rightarrow> Inr v | Some y \<Rightarrow> close_context y v)"
        using False by (simp add: close_contexts_def Some close_context_def v_def split: option.splits)
      ultimately show ?thesis unfolding c o by (simp split: sum.splits)
    qed
  qed
qed

lemma cleanup_begin_no_contexts:
  assumes "ctx_input w = None" "ctx_output w = None"
  shows "\<exists>w1. cleanup_begin w = Returned w1 \<and> cleanup w = Inr w1"
proof -
  define u where "u = stop_sources (stop_media_tracks (clear_frame_interval (w\<lparr>activeSessionId := None\<rparr>)))"
  have n: "ctx_input u = None" "ctx_output u = None"
    using assms
    by (simp_all add: u_def stop_sources_def stop_media_tracks_def clear_frame_interval_def
        split: option.splits)
  then have "close_contexts u = Inr u" by (simp add: close_contexts_def)
  then have "cleanup w = Inr (cleanup_end u)" by (simp add: cleanup_def u_def [symmetric] cleanup_end_def)
  moreover have "cleanup_begin w =
      (case ctx_input u of None \<Rightarrow> cleanup_output u | Some x \<Rightarrow> await_close InputClose x u)"
    unfolding cleanup_begin_def Let_def u_def by (rule refl)
  then have "cleanup_begin w = Returned (cleanup_end u)"
    using n by (simp add: cleanup_output_def)
  ultimately show ?thesis by blast
qed

text \<open>
  What does hold of teardown: once a call of \<^verbatim>\<open>cleanup\<close> has returned, a further call
  returns too and changes nothing; and with no audio contexts in the ref a call returns
  without ever being suspended.
\<close>

lemma cleanup_after_return:
  assumes "cleanup w = Inr w1"
  shows "cleanup w1 = Inr w1 \<and> cleanup_begin w1 = Returned w1 \<and> activeSessionId w1 = None \<and>
         mediaStream w1 = None \<and> sources w1 = {} \<and> ctx_input w1 = None \<and> ctx_output w1 = None \<and>
         \<not> isConnected w1"
proof -
  from assms have r: "activeSessionId w1 = None \<and> mediaStream w1 = None \<and> sources w1 = {} \<and>
         ctx_input w1 = None \<and> ctx_output w1 = None \<and> \<not> isConnected w1 \<and>
         (\<forall>t. frameInterval w1 = Some t \<longrightarrow> t \<noteq> 0 \<longrightarrow> t \<in> clearedIntervals w1)"
    by (rule cleanup_result)
  then have f: "cleanup w1 = Inr w1" by (intro cleanup_fixed) simp_all
  from r obtain w2 where "cleanup_begin w1 = Returned w2" "cleanup w1 = Inr w2"
    using cleanup_begin_no_contexts [of w1] by blast
  then have "cleanup_begin w1 = Returned w1" using f by simp
  then show ?thesis using f r by simp
qed

text \<open>
  Claim C8, on the code. \<^verbatim>\<open>cleanup\<close> empties \<^verbatim>\<open>audioContextsRef\<close> only after its two waits,
  so a second call made while the first is suspended finds the input context still in the
  ref and closes it again. The component makes that call itself: when its effect runs
  again on a live session, the teardown calls \<^verbatim>\<open>cleanup()\<close> without waiting and the new
  \<^verbatim>\<open>connect()\<close> starts with \<^verbatim>\<open>await cleanup()\<close>. The first call is suspended with the
  input context closed and both contexts in the ref; the second call's \<^verbatim>\<open>close()\<close> is
  rejected with an InvalidStateError, so the second \<^verbatim>\<open>cleanup\<close> throws and \<^verbatim>\<open>connect\<close>
  ends before it has a session id. When the first call has gone on to its end the
  overlay is left without a session, its status still \<open>Listening\<close>.
\<close>

theorem cleanup_second_call_rejects:
  "cleanup_begin (run demo_connect initial) = Suspended InputClose None mid_cleanup \<and>
   cleanup_begin mid_cleanup = Suspended InputClose (Some InvalidStateError) mid_cleanup \<and>
   cleanup_resume InputClose (Some InvalidStateError) mid_cleanup =
     Rejected InvalidStateError mid_cleanup \<and>
   cleanup mid_cleanup = Inl (InvalidStateError, mid_cleanup) \<and>
   connect_begin second_closure (Some (4, 5)) mid_cleanup = Inl (InvalidStateError, mid_cleanup) \<and>
   run (demo_connect @
        [CleanupBegin, ConnectBegin second_closure (Some (4, 5)),
         CleanupResume InputClose None, CleanupResume OutputClose None]) initial =
     initial\<lparr>status := Listening, closedContexts := {1, 2}, stoppedStreams := {3}\<rparr>"
proof -
  have 1: "cleanup_begin (run demo_connect initial) = Suspended InputClose None mid_cleanup"
    unfolding live_state
    by (simp add: mid_cleanup_def initial_def cleanup_begin_def await_close_def close_context_def
        stop_sources_def stop_media_tracks_def clear_frame_interval_def)
  have 2: "cleanup_begin mid_cleanup = Suspended InputClose (Some InvalidStateError) mid_cleanup"
    by (simp add: mid_cleanup_def initial_def cleanup_begin_def await_close_def close_context_def
        stop_sources_def stop_media_tracks_def clear_frame_interval_def)
  have 3: "cleanup_resume InputClose (Some InvalidStateError) mid_cleanup =
     Rejected InvalidStateError mid_cleanup"
    by (simp add: cleanup_resume_def)
  have 4: "cleanup mid_cleanup = Inl (InvalidStateError, mid_cleanup)"
    by (simp add: mid_cleanup_def initial_def cleanup_def close_contexts_def close_context_def
        stop_sources_def stop_media_tracks_def clear_frame_interval_def)
  have 5: "connect_begin second_closure (Some (4, 5)) mid_cleanup =
      Inl (InvalidStateError, mid_cleanup)"
    by (simp add: connect_begin_def 4)
  have 6: "cleanup_resume OutputClose None
             (state_of (cleanup_resume InputClose None mid_cleanup)) =
           Returned (initial\<lparr>status := Listening, closedContexts := {1, 2}, stoppedStreams := {3}\<rparr>)"
    by (simp add: mid_cleanup_def initial_def cleanup_resume_def cleanup_output_def
        await_close_def close_context_def cleanup_end_def insert_commute)
  have "run (demo_connect @
        [CleanupBegin, ConnectBegin second_closure (Some (4, 5)),
         CleanupResume InputClose None, CleanupResume OutputClose None]) initial =
     initial\<lparr>status := Listening, closedContexts := {1, 2}, stoppedStreams := {3}\<rparr>"
  proof -
    define live where "live = run demo_connect initial"
    have b: "cleanup_begin live = Suspended InputClose None mid_cleanup"
      using 1 by (simp add: live_def)
    have "run [CleanupBegin, ConnectBegin second_closure (Some (4, 5)),
               CleanupResume InputClose None, CleanupResume OutputClose None] live =
          initial\<lparr>status := Listening, closedContexts := {1, 2}, stoppedStreams := {3}\<rparr>"
      by (simp add: run_def b 5 6)
    then show ?thesis unfolding run_append [of demo_connect] live_def .
  qed
  then show ?thesis using 1 2 3 4 5 by simp
qed

section \<open>The error status\<close>

lemma on_audio_decodes:
  "(case on_audio now b w of Inl a \<Rightarrow> False | Inr w2 \<Rightarrow> True) = decodes b"
  by (simp add: on_audio_def decodes_def Let_def split: sum.splits)

lemma message_status:
  assumes "status w = Error"
  shows "status (step (Message c now m) w) =
     (if stale c w then Error
      else if has_audio m
           then (if interrupted m \<and> decodes (the (audioBase64 m)) then Listening else Speaking)
           else if interrupted m then Listening else Error)"
proof (cases "stale c w \<or> \<not> has_audio m")
  case True
  then show ?thesis unfolding message_step using assms by auto
next
  case False
  show ?thesis
  proof (cases "on_audio now (the (audioBase64 m)) (on_transcripts m w)")
    case (Inl a)
    obtain err w2 where a: "a = (err, w2)" by (cases a)
    have "status w2 = Speaking"
      using on_audio_fields(3) [of now "the (audioBase64 m)" "on_transcripts m w"] Inl a by simp
    moreover have "\<not> decodes (the (audioBase64 m))"
      using on_audio_decodes [of now "the (audioBase64 m)" "on_transcripts m w"] Inl by simp
    ultimately show ?thesis unfolding message_step using False Inl a by simp
  next
    case (Inr w2)
    have "status w2 = Speaking"
      using on_audio_fields(3) [of now "the (audioBase64 m)" "on_transcripts m w"] Inr by simp
    moreover have "decodes (the (audioBase64 m))"
      using on_audio_decodes [of now "the (audioBase64 m)" "on_transcripts m w"] Inr by simp
    ultimately show ?thesis unfolding message_step using False Inr by simp
  qed
qed

lemma connect_begin_status:
  assumes "status w = Error"
  shows "status (step (ConnectBegin c ctxs) w) =
     (case cleanup w of
        Inl err \<Rightarrow> Error
      | Inr w1 \<Rightarrow> (case ctxs of None \<Rightarrow> Error | Some p \<Rightarrow> Connecting))"
proof (cases "cleanup w")
  case (Inl a)
  then have "settle (connect_begin c ctxs w) = settle (cleanup w)"
    by (simp add: connect_begin_def)
  then show ?thesis using cleanup_fields [of w] assms Inl by simp
next
  case (Inr w1)
  then show ?thesis
    by (simp add: connect_begin_def Let_def split: option.splits prod.splits)
qed

text \<open>
  Claim C5, as amended. A stream error sets the status to \<open>Error\<close>. While the status is
  \<open>Error\<close>, an event leaves it at \<open>Error\<close>, with these exceptions: a message of the current
  session that carries audio sets it to \<open>Speaking\<close>, or to \<open>Listening\<close> if the message also
  carries an interruption and the audio decodes; a message of the current session that
  carries an interruption and no audio sets it to \<open>Listening\<close>; a source-ended callback
  that empties the Active Source Set sets it to \<open>Listening\<close>; the open event of the current
  session sets it to \<open>Listening\<close>; a new \<^verbatim>\<open>connect()\<close> sets it to \<open>Connecting\<close> if its
  \<^verbatim>\<open>cleanup()\<close> returns and its audio contexts are created, and leaves it at \<open>Error\<close>
  otherwise.
\<close>

theorem error_status_until_reset:
  "status (onerror c w) = Error \<and>
   (status w = Error \<longrightarrow>
      status (step e w) =
        (case e of
           Message c' now m \<Rightarrow>
             if stale c' w then Error
             else if has_audio m
                  then (if interrupted m \<and> decodes (the (audioBase64 m)) then Listening
                        else Speaking)
                  else if interrupted m then Listening else Error
         | SourceEnded c' src \<Rightarrow> if sources w - {src} = {} then Listening else Error
         | Open c' timer \<Rightarrow> if stale c' w then Error else Listening
         | ConnectBegin c' ctxs \<Rightarrow>
             (case cleanup w of
                Inl err \<Rightarrow> Error
              | Inr w1 \<Rightarrow> (case ctxs of None \<Rightarrow> Error | Some p \<Rightarrow> Connecting))
         | _ \<Rightarrow> Error))"
proof (rule conjI)
  show "status (onerror c w) = Error" by (simp add: onerror_def)
  show "status w = Error \<longrightarrow>
      status (step e w) =
        (case e of
           Message c' now m \<Rightarrow>
             if stale c' w then Error
             else if has_audio m
                  then (if interrupted m \<and> decodes (the (audioBase64 m)) then Listening
                        else Speaking)
                  else if interrupted m then Listening else Error
         | SourceEnded c' src \<Rightarrow> if sources w - {src} = {} then Listening else Error
         | Open c' timer \<Rightarrow> if stale c' w then Error else Listening
         | ConnectBegin c' ctxs \<Rightarrow>
             (case cleanup w of
                Inl err \<Rightarrow> Error
              | Inr w1 \<Rightarrow> (case ctxs of None \<Rightarrow> Error | Some p \<Rightarrow> Connecting))
         | _ \<Rightarrow> Error)"
  proof
    assume err: "status w = Error"
    show "status (step e w) =
        (case e of
           Message c' now m \<Rightarrow>
             if stale c' w then Error
             else if has_audio m
                  then (if interrupted m \<and> decodes (the (audioBase64 m)) then Listening
                        else Speaking)
                  else if interrupted m then Listening else Error
         | SourceEnded c' src \<Rightarrow> if sources w - {src} = {} then Listening else Error
         | Open c' timer \<Rightarrow> if stale c' w then Error else Listening
         | ConnectBegin c' ctxs \<Rightarrow>
             (case cleanup w of
                Inl err \<Rightarrow> Error
              | Inr w1 \<Rightarrow> (case ctxs of None \<Rightarrow> Error | Some p \<Rightarrow> Connecting))
         | _ \<Rightarrow> Error)"
    proof (cases e)
      case (ConnectBegin c' ctxs)
      show ?thesis unfolding ConnectBegin using connect_begin_status [OF err, of c' ctxs] by simp
    next
      case Cleanup
      then show ?thesis using cleanup_fields [of w] err by simp
    next
      case CleanupBegin
      then show ?thesis using cleanup_begin_fields [of w] err by simp
    next
      case (CleanupResume p r)
      then show ?thesis using cleanup_resume_fields [of p r w] err by simp
    next
      case (Message c' now m)
      show ?thesis unfolding Message using message_status [OF err, of c' now m] by simp
    next
      case (SourceEnded c' src)
      then show ?thesis using err by (simp add: source_onended_def Let_def)
    qed (simp_all add: err connect_media_def onopen_def onaudioprocess_def frame_tick_def
        blob_done_def onerror_def onclose_def Let_def split: option.splits sum.splits)
  qed
qed

lemma playing_error_state:
  "run (demo_playing @ [StreamError demo_closure]) initial =
     (run demo_playing initial)\<lparr>status := Error\<rparr>"
  by (simp add: run_snoc onerror_def)

lemma error_not_stale: "\<not> stale demo_closure ((run demo_playing initial)\<lparr>status := Error\<rparr>)"
  using playing_not_stale by (simp add: stale_def)

text \<open>
  The error status is not terminal: after the stream error of a session with one chunk
  still playing, the end of that chunk or an interruption sets the status to
  \<open>Listening\<close>, and a further audio chunk sets it to \<open>Speaking\<close>.
\<close>

theorem error_status_counterexample:
  "status (run (demo_playing @ [StreamError demo_closure]) initial) = Error \<and>
   status (run (demo_playing @ [StreamError demo_closure, SourceEnded demo_closure 1]) initial)
     = Listening \<and>
   status (run (demo_playing @ [StreamError demo_closure, Message demo_closure 6 interruption])
             initial) = Listening \<and>
   status (run (demo_playing @ [StreamError demo_closure, Message demo_closure 6 silence])
             initial) = Speaking"
proof -
  have a: "demo_playing @ [StreamError demo_closure, e] =
           (demo_playing @ [StreamError demo_closure]) @ [e]" for e by simp
  have 1: "status (run (demo_playing @ [StreamError demo_closure]) initial) = Error"
    by (simp add: playing_error_state)
  have 2: "status (run (demo_playing @ [StreamError demo_closure, SourceEnded demo_closure 1]) initial)
     = Listening"
    unfolding a run_snoc [of "demo_playing @ [StreamError demo_closure]"] playing_error_state
    unfolding playing_state by (simp add: source_onended_def Let_def initial_def)
  have 3: "status (run (demo_playing @ [StreamError demo_closure, Message demo_closure 6 interruption])
             initial) = Listening"
    unfolding a run_snoc [of "demo_playing @ [StreamError demo_closure]"] playing_error_state
    unfolding message_step using error_not_stale by (simp add: interruption_def has_audio_def)
  have 4: "status (run (demo_playing @ [StreamError demo_closure, Message demo_closure 6 silence])
             initial) = Speaking"
    unfolding a run_snoc [of "demo_playing @ [StreamError demo_closure]"] playing_error_state
      message_silence [OF error_not_stale]
    by simp
  show ?thesis using 1 2 3 4 by simp
qed

text \<open>
  At the example session in the error status: the close event and the end of a chunk
  that is not the last one leave the status alone; a new \<^verbatim>\<open>connect()\<close> sets \<open>Connecting\<close>
  when its contexts are created and leaves \<open>Error\<close> when they are not, or when its
  \<^verbatim>\<open>cleanup()\<close> is rejected.
\<close>

theorem error_status_until_reset_witness:
  "status (onerror demo_closure (run demo_playing initial)) = Error \<and>
   status ((run demo_playing initial)\<lparr>status := Error\<rparr>) = Error \<and>
   status (step (StreamClose demo_closure) ((run demo_playing initial)\<lparr>status := Error\<rparr>)) = Error \<and>
   status (step (SourceEnded demo_closure 0) ((run demo_playing initial)\<lparr>status := Error\<rparr>)) = Error \<and>
   status (step (ConnectBegin second_closure (Some (4, 5)))
             ((run demo_playing initial)\<lparr>status := Error\<rparr>)) = Connecting \<and>
   status (step (ConnectBegin second_closure None)
             ((run demo_playing initial)\<lparr>status := Error\<rparr>)) = Error \<and>
   status (step (ConnectBegin second_closure (Some (4, 5))) (mid_cleanup\<lparr>status := Error\<rparr>)) = Error"
proof -
  have s: "sources ((run demo_playing initial)\<lparr>status := Error\<rparr>) - {0} \<noteq> {}"
    unfolding playing_state by (simp add: initial_def)
  have c: "\<exists>w1. cleanup ((run demo_playing initial)\<lparr>status := Error\<rparr>) = Inr w1"
    unfolding playing_state by (rule cleanup_returns [of _ 1 2]) (simp_all add: initial_def)
  have m: "cleanup (mid_cleanup\<lparr>status := Error\<rparr>) =
      Inl (InvalidStateError, mid_cleanup\<lparr>status := Error\<rparr>)"
    by (simp add: mid_cleanup_def initial_def cleanup_def close_contexts_def close_context_def
        stop_sources_def stop_media_tracks_def clear_frame_interval_def)
  show ?thesis
    using error_status_until_reset [of demo_closure "run demo_playing initial" "StreamClose demo_closure"]
      error_status_until_reset [of demo_closure "(run demo_playing initial)\<lparr>status := Error\<rparr>" "StreamClose demo_closure"]
      error_status_until_reset [of demo_closure "(run demo_playing initial)\<lparr>status := Error\<rparr>" "SourceEnded demo_closure 0"]
      error_status_until_reset [of demo_closure "(run demo_playing initial)\<lparr>status := Error\<rparr>"
        "ConnectBegin second_closure (Some (4, 5))"]
      error_status_until_reset [of demo_closure "(run demo_playing initial)\<lparr>status := Error\<rparr>"
        "ConnectBegin second_closure None"]
      error_status_until_reset [of demo_closure "mid_cleanup\<lparr>status := Error\<rparr>"
        "ConnectBegin second_closure (Some (4, 5))"]
      s c m
    by auto
qed

section \<open>The playback cursor\<close>

lemma schedule_on_transcripts [simp]: "schedule (on_transcripts m w) = schedule w"
  by (simp add: schedule_def)











section \<open>A superseded session\<close>

lemma reconnect_state:
  "run demo_reconnect initial =
     initial\<lparr>status := Connecting, ctx_input := Some 4, ctx_output := Some 5,
             activeSessionId := Some ''session-2'', mediaStream := Some 6,
             nodes := [\<lparr>start_at = 2, buf_duration = 1 / 12000, created_at = 2, stopped = True\<rparr>],
             nextStartTime := 2 + 1 / 12000, closedContexts := {1, 2}, stoppedStreams := {3}\<rparr>"
proof -
  have s: "\<not> stale demo_closure (run demo_connect initial)"
    unfolding live_state by (simp add: stale_def demo_closure_def initial_def)
  have 1: "run (demo_connect @ [Message demo_closure 2 silence]) initial =
     initial\<lparr>status := Speaking, isConnected := True, ctx_input := Some 1, ctx_output := Some 2,
             activeSessionId := Some ''session-1'', mediaStream := Some 3,
             nodes := [\<lparr>start_at = 2, buf_duration = 1 / 12000, created_at = 2, stopped = False\<rparr>],
             nextStartTime := 2 + 1 / 12000, sources := {0}\<rparr>"
    unfolding run_snoc message_silence [OF s] unfolding live_state by (simp add: initial_def)
  have d: "demo_reconnect = (demo_connect @ [Message demo_closure 2 silence]) @
      [ConnectBegin second_closure (Some (4, 5)), ConnectMedia second_closure (Some 6)]"
    by (simp add: demo_reconnect_def)
  show ?thesis
    unfolding d run_append [of "demo_connect @ [Message demo_closure 2 silence]"] 1
    by (simp add: run_def initial_def second_closure_def connect_begin_def cleanup_def
        close_contexts_def close_context_def stop_sources_def stop_media_tracks_def
        clear_frame_interval_def connect_media_def stale_def insert_commute)
qed

text \<open>
  Claim C3, on the code. After a second \<^verbatim>\<open>connect()\<close> the token of the first session is
  no longer the active one, its stream is stopped and its audio contexts are closed, and
  the open and message callbacks of the first session do nothing. Its error, close and
  source-ended callbacks, the rejection of its media request and the completion of one
  of its canvas captures do not compare the token: they set the status, clear
  \<^verbatim>\<open>isConnected\<close> and send media all the same.
\<close>

theorem stale_callbacks_mutate_state:
  "activeSessionId (run demo_reconnect initial) = Some (sessionId second_closure) \<and>
   stale demo_closure (run demo_reconnect initial) \<and>
   status (run demo_reconnect initial) = Connecting \<and>
   stoppedStreams (run demo_reconnect initial) = {3} \<and>
   closedContexts (run demo_reconnect initial) = {1, 2} \<and>
   onopen demo_closure 9 (run demo_reconnect initial) = run demo_reconnect initial \<and>
   onmessage demo_closure 9 silence (run demo_reconnect initial) = Inr (run demo_reconnect initial) \<and>
   status (onerror demo_closure (run demo_reconnect initial)) = Error \<and>
   status (source_onended demo_closure 0 (run demo_reconnect initial)) = Listening \<and>
   status (connect_media demo_closure None (run demo_reconnect initial)) = Error \<and>
   sent (blob_done demo_closure (Some (js_str ''AAAA'')) (run demo_reconnect initial)) =
     [(sessionId demo_closure, \<lparr>media_data = js_str ''AAAA'', mimeType = js_str ''image/jpeg''\<rparr>)] \<and>
   isConnected (onopen second_closure 8 (run demo_reconnect initial)) \<and>
   \<not> isConnected (onclose demo_closure (onopen second_closure 8 (run demo_reconnect initial)))"
  unfolding reconnect_state
  by (simp add: initial_def stale_def demo_closure_def second_closure_def onopen_def onmessage_def
      onerror_def source_onended_def connect_media_def blob_done_def onclose_def Let_def)

end
